theory Spec2Isabelle
  imports Main "HOL-Library.Monad_Syntax" "HOL-Library.Multiset" "HOL-Library.Word"
begin

section \<open>Flows and cursors\<close>

text \<open>
  Every class of \<^verbatim>\<open>processing.h\<close> that can stand on the left of \<^verbatim>\<open>operator|\<close> offers
  \<^verbatim>\<open>begin()\<close>, \<^verbatim>\<open>end()\<close> and a cursor type with \<^verbatim>\<open>operator!=\<close>, \<^verbatim>\<open>operator*\<close> and
  \<^verbatim>\<open>operator++\<close>. A flow is the record of these five operations over a cursor type
  \<^typ>\<open>'it\<close>. Constructing a cursor and advancing it may run a loop of their own
  (\<^verbatim>\<open>skip_unmatched\<close>, \<^verbatim>\<open>next_token\<close>), so \<^verbatim>\<open>begin()\<close>, \<^verbatim>\<open>end()\<close> and \<^verbatim>\<open>operator++\<close> are
  option-valued: \<^term>\<open>None\<close> says that the call does not return a cursor (its loop
  never ends, or an exception leaves it).
\<close>

record ('it, 'a) flow =
  flow_begin :: "'it option"
  flow_end :: "'it option"
  flow_ne :: "'it \<Rightarrow> 'it \<Rightarrow> bool"
  flow_deref :: "'it \<Rightarrow> 'a"
  flow_incr :: "'it \<Rightarrow> 'it option"

text \<open>
  \<^verbatim>\<open>DataFlowSource<Container>\<close> hands out the container's own cursors; \<^verbatim>\<open>DataFlow<Flow>\<close>
  forwards \<^verbatim>\<open>begin()\<close> and \<^verbatim>\<open>end()\<close> to the flow it wraps. A cursor of a
  \<^verbatim>\<open>std::vector\<close> is its position.
\<close>

definition DataFlowSource :: "'a list \<Rightarrow> (nat, 'a) flow" where
  "DataFlowSource container =
     \<lparr> flow_begin = Some 0,
       flow_end = Some (length container),
       flow_ne = (\<lambda>i j. i \<noteq> j),
       flow_deref = (\<lambda>i. container ! i),
       flow_incr = (\<lambda>i. Some (Suc i)) \<rparr>"

definition DataFlow :: "('it, 'a) flow \<Rightarrow> ('it, 'a) flow" where
  "DataFlow flow = flow"

definition AsDataFlow :: "'a list \<Rightarrow> (nat, 'a) flow" where
  "AsDataFlow container = DataFlow (DataFlowSource container)"

subsection \<open>AsVector\<close>

text \<open>
  \<^verbatim>\<open>for (auto&& elem : prev) result.push_back(elem);\<close> is
  \<^verbatim>\<open>for (it = prev.begin(), e = prev.end(); it != e; ++it) result.push_back(*it);\<close>.
  The loop has no bound of its own, so it is a partial function: \<^term>\<open>None\<close> when it
  does not end.
\<close>

partial_function (option) AsVector_loop ::
  "('it, 'a) flow \<Rightarrow> 'it \<Rightarrow> 'it \<Rightarrow> 'a list \<Rightarrow> 'a list option" where
  "AsVector_loop prev it e result =
     (if flow_ne prev it e
      then do { it' \<leftarrow> flow_incr prev it;
                AsVector_loop prev it' e (result @ [flow_deref prev it]) }
      else Some result)"

definition AsVector :: "('it, 'a) flow \<Rightarrow> 'a list option" where
  "AsVector prev =
     do { b \<leftarrow> flow_begin prev; e \<leftarrow> flow_end prev; AsVector_loop prev b e [] }"

subsection \<open>Transform\<close>

record ('it, 'a, 'b) TransformedFlow_Iterator =
  transform_it :: 'it
  transform_func :: "'a \<Rightarrow> 'b"

definition TransformedFlow ::
  "('it, 'a) flow \<Rightarrow> ('a \<Rightarrow> 'b) \<Rightarrow> (('it, 'a, 'b) TransformedFlow_Iterator, 'b) flow" where
  "TransformedFlow prev func =
     \<lparr> flow_begin = do { b \<leftarrow> flow_begin prev; Some \<lparr> transform_it = b, transform_func = func \<rparr> },
       flow_end = do { e \<leftarrow> flow_end prev; Some \<lparr> transform_it = e, transform_func = func \<rparr> },
       flow_ne = (\<lambda>i other. flow_ne prev (transform_it i) (transform_it other)),
       flow_deref = (\<lambda>i. transform_func i (flow_deref prev (transform_it i))),
       flow_incr = (\<lambda>i. do { n \<leftarrow> flow_incr prev (transform_it i); Some (i \<lparr> transform_it := n \<rparr>) }) \<rparr>"

definition Transform ::
  "('a \<Rightarrow> 'b) \<Rightarrow> ('it, 'a) flow \<Rightarrow> (('it, 'a, 'b) TransformedFlow_Iterator, 'b) flow" where
  "Transform func prev = TransformedFlow prev func"

subsection \<open>Filter\<close>

text \<open>
  A cursor of \<^verbatim>\<open>FilteredFlow\<close> holds the upstream cursor \<^verbatim>\<open>current_\<close>, the upstream end
  \<^verbatim>\<open>end_\<close> and the predicate. Its constructor and its \<^verbatim>\<open>operator++\<close> run
  \<^verbatim>\<open>skip_unmatched\<close>, the loop
  \<^verbatim>\<open>while (current_ != end_ && !predicate_(*current_)) ++current_;\<close>.
  (Member names lose their trailing underscore here.)
\<close>

record ('it, 'a) FilteredFlow_Iterator =
  filter_current :: 'it
  filter_end :: 'it
  predicate :: "'a \<Rightarrow> bool"

partial_function (option) skip_unmatched ::
  "('it, 'a) flow \<Rightarrow> ('it, 'a) FilteredFlow_Iterator \<Rightarrow> ('it, 'a) FilteredFlow_Iterator option" where
  "skip_unmatched prev i =
     (if flow_ne prev (filter_current i) (filter_end i)
         \<and> \<not> predicate i (flow_deref prev (filter_current i))
      then do { n \<leftarrow> flow_incr prev (filter_current i);
                skip_unmatched prev (i \<lparr> filter_current := n \<rparr>) }
      else Some i)"

definition FilteredFlow_Iterator ::
  "('it, 'a) flow \<Rightarrow> 'it \<Rightarrow> 'it \<Rightarrow> ('a \<Rightarrow> bool) \<Rightarrow> ('it, 'a) FilteredFlow_Iterator option" where
  "FilteredFlow_Iterator prev current end_it pred =
     skip_unmatched prev \<lparr> filter_current = current, filter_end = end_it, predicate = pred \<rparr>"

definition FilteredFlow ::
  "('it, 'a) flow \<Rightarrow> ('a \<Rightarrow> bool) \<Rightarrow> (('it, 'a) FilteredFlow_Iterator, 'a) flow" where
  "FilteredFlow prev pred =
     \<lparr> flow_begin = do { b \<leftarrow> flow_begin prev; e \<leftarrow> flow_end prev;
                         FilteredFlow_Iterator prev b e pred },
       flow_end = do { e \<leftarrow> flow_end prev; FilteredFlow_Iterator prev e e pred },
       flow_ne = (\<lambda>i other. flow_ne prev (filter_current i) (filter_current other)),
       flow_deref = (\<lambda>i. flow_deref prev (filter_current i)),
       flow_incr = (\<lambda>i. do { n \<leftarrow> flow_incr prev (filter_current i);
                             skip_unmatched prev (i \<lparr> filter_current := n \<rparr>) }) \<rparr>"

definition Filter ::
  "('a \<Rightarrow> bool) \<Rightarrow> ('it, 'a) flow \<Rightarrow> (('it, 'a) FilteredFlow_Iterator, 'a) flow" where
  "Filter pred prev = FilteredFlow prev pred"

subsection \<open>Split\<close>

text \<open>
  The two \<^verbatim>\<open>std::string\<close> members that \<^verbatim>\<open>next_token\<close> calls. A position is a
  \<^typ>\<open>nat option\<close>, \<^term>\<open>None\<close> standing for \<^verbatim>\<open>std::string::npos\<close>.
  \<^verbatim>\<open>find_first_of(chars, pos)\<close> is the first position from \<^verbatim>\<open>pos\<close> on that holds one of
  \<^verbatim>\<open>chars\<close>; \<^verbatim>\<open>substr(pos, count)\<close> throws \<^verbatim>\<open>std::out_of_range\<close> when \<^verbatim>\<open>pos\<close> is beyond the
  size (\<^term>\<open>None\<close> as a result), and a count of \<^verbatim>\<open>npos\<close> takes the rest.
\<close>

function find_first_of :: "string \<Rightarrow> string \<Rightarrow> nat \<Rightarrow> nat option" where
  "find_first_of s chars pos =
     (if length s \<le> pos then None
      else if s ! pos \<in> set chars then Some pos
      else find_first_of s chars (Suc pos))"
  by pat_completeness auto
termination
  by (relation "measure (\<lambda>(s, chars, pos). length s - pos)") auto

definition substr :: "string \<Rightarrow> nat \<Rightarrow> nat option \<Rightarrow> string option" where
  "substr s pos cnt =
     (if length s < pos then None
      else case cnt of None \<Rightarrow> Some (drop pos s) | Some n \<Rightarrow> Some (take n (drop pos s)))"

text \<open>
  A cursor of \<^verbatim>\<open>SplitFlow\<close>. The upstream is given by its flow; \<^verbatim>\<open>current_ == end_\<close> is
  read as the negation of the upstream's \<^verbatim>\<open>!=\<close>, which is what a container's cursors
  give.
\<close>

record 'it SplitFlow_Iterator =
  current :: 'it
  end_it :: 'it
  delimiters :: string
  current_token :: string
  current_content :: string
  current_pos :: "nat option"

text \<open>The part of \<^verbatim>\<open>next_token\<close> from \<^verbatim>\<open>find_first_of\<close> on.\<close>

definition scan_token :: "'it SplitFlow_Iterator \<Rightarrow> 'it SplitFlow_Iterator option" where
  "scan_token i =
     (case current_pos i of
        None \<Rightarrow> None
      | Some pos \<Rightarrow>
          (case find_first_of (current_content i) (delimiters i) pos of
             None \<Rightarrow>
               do { t \<leftarrow> substr (current_content i) pos None;
                    Some (i \<lparr> current_token := t, current_pos := None \<rparr>) }
           | Some end_pos \<Rightarrow>
               do { t \<leftarrow> substr (current_content i) pos (Some (end_pos - pos));
                    Some (i \<lparr> current_token := t, current_pos := Some (end_pos + 1) \<rparr>) }))"

definition next_token ::
  "('it, string) flow \<Rightarrow> 'it SplitFlow_Iterator \<Rightarrow> 'it SplitFlow_Iterator option" where
  "next_token prev i0 =
     (let i = i0 \<lparr> current_token := [] \<rparr> in
      if \<not> flow_ne prev (current i) (end_it i) then Some i
      else if current_pos i = None then
        do { n \<leftarrow> flow_incr prev (current i);
             if flow_ne prev n (end_it i)
             then scan_token (i \<lparr> current := n, current_content := flow_deref prev n,
                                   current_pos := Some 0 \<rparr>)
             else Some (i \<lparr> current := n \<rparr>) }
      else scan_token i)"

definition SplitFlow_Iterator ::
  "('it, string) flow \<Rightarrow> 'it \<Rightarrow> 'it \<Rightarrow> string \<Rightarrow> 'it SplitFlow_Iterator option" where
  "SplitFlow_Iterator prev cur e delims =
     (let i = \<lparr> current = cur, end_it = e, delimiters = delims, current_token = [],
                 current_content = [], current_pos = Some 0 \<rparr> in
      if flow_ne prev cur e
      then next_token prev (i \<lparr> current_content := flow_deref prev cur, current_pos := Some 0 \<rparr>)
      else Some i)"

definition SplitFlow ::
  "('it, string) flow \<Rightarrow> string \<Rightarrow> ('it SplitFlow_Iterator, string) flow" where
  "SplitFlow prev delims =
     \<lparr> flow_begin = do { b \<leftarrow> flow_begin prev; e \<leftarrow> flow_end prev;
                         SplitFlow_Iterator prev b e delims },
       flow_end = do { e \<leftarrow> flow_end prev; SplitFlow_Iterator prev e e delims },
       flow_ne = (\<lambda>i other. \<not> (\<not> flow_ne prev (current i) (current other)
                                 \<and> current_pos i = None)),
       flow_deref = current_token,
       flow_incr = next_token prev \<rparr>"

definition Split :: "string \<Rightarrow> ('it, string) flow \<Rightarrow> ('it SplitFlow_Iterator, string) flow" where
  "Split delims prev = SplitFlow prev delims"

section \<open>Eager adapters\<close>

text \<open>
  The eager adapters run \<^verbatim>\<open>for (auto&& value : prev) body\<close> over their input: the loop of
  \<^const>\<open>AsVector_loop\<close> with a body that updates the adapter's local state.
\<close>

partial_function (option) range_for_loop ::
  "('it, 'a) flow \<Rightarrow> 'it \<Rightarrow> 'it \<Rightarrow> ('s \<Rightarrow> 'a \<Rightarrow> 's) \<Rightarrow> 's \<Rightarrow> 's option" where
  "range_for_loop prev it e body st =
     (if flow_ne prev it e
      then do { it' \<leftarrow> flow_incr prev it;
                range_for_loop prev it' e body (body st (flow_deref prev it)) }
      else Some st)"

definition range_for :: "('it, 'a) flow \<Rightarrow> ('s \<Rightarrow> 'a \<Rightarrow> 's) \<Rightarrow> 's \<Rightarrow> 's option" where
  "range_for prev body st =
     do { b \<leftarrow> flow_begin prev; e \<leftarrow> flow_end prev; range_for_loop prev b e body st }"

subsection \<open>Write\<close>

text \<open>
  The output stream is the string of the characters written to it so far; \<^verbatim>\<open>os << elem\<close>
  appends the element's text, given by \<open>to_text\<close> (the \<^verbatim>\<open>operator<<\<close> of the element type).
  The loop's state is \<^verbatim>\<open>(first, hasElements, os)\<close>; the adapter returns the stream and
  its input.
\<close>

definition Write_body ::
  "char \<Rightarrow> ('a \<Rightarrow> string) \<Rightarrow> bool \<times> bool \<times> string \<Rightarrow> 'a \<Rightarrow> bool \<times> bool \<times> string" where
  "Write_body delimiter to_text st elem =
     (case st of (first, hasElements, os) \<Rightarrow>
        let os1 = (if \<not> first then os @ [delimiter] else os);
            os2 = os1 @ to_text elem
        in (False, True, os2))"

definition WriteAdapter ::
  "string \<Rightarrow> char \<Rightarrow> ('a \<Rightarrow> string) \<Rightarrow> ('it, 'a) flow \<Rightarrow> (string \<times> ('it, 'a) flow) option" where
  "WriteAdapter os delimiter to_text prev =
     do { st \<leftarrow> range_for prev (Write_body delimiter to_text) (True, False, os);
          case st of (first, hasElements, os') \<Rightarrow>
            Some (if hasElements then os' @ [delimiter] else os', prev) }"

text \<open>\<^verbatim>\<open>os << n\<close> for an \<^verbatim>\<open>int\<close>: the decimal digits, after a minus sign when negative.\<close>

definition digit_char :: "nat \<Rightarrow> char" where
  "digit_char d = ''0123456789'' ! d"

function decimal :: "nat \<Rightarrow> string" where
  "decimal n = (if n < 10 then [digit_char n] else decimal (n div 10) @ [digit_char (n mod 10)])"
  by pat_completeness auto
termination
  by (relation "measure (\<lambda>n. n)") auto

definition int_text :: "int \<Rightarrow> string" where
  "int_text n = (if n < 0 then CHR ''-'' # decimal (nat (- n)) else decimal (nat n))"

subsection \<open>Join\<close>

record ('k, 'v) KV =
  kv_key :: 'k
  kv_value :: 'v

record ('b, 'j) JoinResult =
  base :: 'b
  joined :: "'j option"

text \<open>
  \<^verbatim>\<open>std::unordered_multimap\<close> keeps the entries of equal keys next to each other, and
  \<^verbatim>\<open>equal_range(k)\<close> is that group. The map is modelled by its groups. Where \<^verbatim>\<open>emplace\<close>
  puts a new entry inside the group of its key is left to the library by the C++
  standard, so it is the parameter \<open>place\<close>: the group after an entry has been added.
  \<^const>\<open>Cons\<close> puts the new entry in front of its group, \<^term>\<open>\<lambda>v vs. vs @ [v]\<close> behind it.
\<close>

type_synonym ('k, 'v) unordered_multimap = "'k \<Rightarrow> 'v list"

definition emplace ::
  "('v \<Rightarrow> 'v list \<Rightarrow> 'v list) \<Rightarrow> 'k \<Rightarrow> 'v \<Rightarrow> ('k, 'v) unordered_multimap
     \<Rightarrow> ('k, 'v) unordered_multimap" where
  "emplace place k v right_map = right_map (k := place v (right_map k))"

definition equal_range :: "('k, 'v) unordered_multimap \<Rightarrow> 'k \<Rightarrow> 'v list" where
  "equal_range right_map k = right_map k"

definition places_one :: "('v \<Rightarrow> 'v list \<Rightarrow> 'v list) \<Rightarrow> bool" where
  "places_one place \<longleftrightarrow> (\<forall>v vs. mset (place v vs) = add_mset v (mset vs))"

text \<open>
  \<^verbatim>\<open>JoinAdapter::operator()\<close>, the selector-key form. Every row is built as
  \<^verbatim>\<open>ResultType{std::forward<LeftValue>(left_value), ...}\<close>, and \<^verbatim>\<open>LeftValue\<close> is the decayed
  element type, so the \<^verbatim>\<open>std::forward\<close> is a cast to an rvalue: the row's base is
  move-constructed from \<^verbatim>\<open>left_value\<close>, which is left in its moved-from state for the
  next row of the same left element. \<open>moved_from\<close> is that state (the identity for a
  type whose move is a copy); the state of the loop over the matches is the result
  vector together with \<^verbatim>\<open>left_value\<close>.
\<close>

definition Join_row_body ::
  "('l \<Rightarrow> 'l) \<Rightarrow> ('l, 'r) JoinResult list \<times> 'l \<Rightarrow> 'r \<Rightarrow> ('l, 'r) JoinResult list \<times> 'l" where
  "Join_row_body moved_from st r =
     (case st of (result, left_value) \<Rightarrow>
        (result @ [\<lparr> base = left_value, joined = Some r \<rparr>], moved_from left_value))"

definition Join_left_body ::
  "('l \<Rightarrow> 'l) \<Rightarrow> ('l \<Rightarrow> 'k) \<Rightarrow> ('k, 'r) unordered_multimap \<Rightarrow> ('l, 'r) JoinResult list \<Rightarrow> 'l
     \<Rightarrow> ('l, 'r) JoinResult list" where
  "Join_left_body moved_from left_key right_map result left_value =
     (let range = equal_range right_map (left_key left_value) in
      if range = [] then result @ [\<lparr> base = left_value, joined = None \<rparr>]
      else fst (foldl (Join_row_body moved_from) (result, left_value) range))"

definition JoinAdapter ::
  "('r \<Rightarrow> 'r list \<Rightarrow> 'r list) \<Rightarrow> ('l \<Rightarrow> 'l) \<Rightarrow> ('itr, 'r) flow \<Rightarrow> ('l \<Rightarrow> 'k) \<Rightarrow> ('r \<Rightarrow> 'k)
     \<Rightarrow> ('itl, 'l) flow \<Rightarrow> (nat, ('l, 'r) JoinResult) flow option" where
  "JoinAdapter place moved_from right left_key right_key left =
     do { right_map \<leftarrow> range_for right
            (\<lambda>m right_value. emplace place (right_key right_value) right_value m) (\<lambda>k. []);
          result \<leftarrow> range_for left (Join_left_body moved_from left_key right_map) [];
          Some (AsDataFlow result) }"

text \<open>
  \<^verbatim>\<open>SimpleJoinAdapter::operator()\<close>, the form for \<^verbatim>\<open>KV\<close> elements. Its rows are built as
  \<^verbatim>\<open>ResultType{left_value.value, it->second}\<close>: both fields are copied.
\<close>

definition SimpleJoin_row_body ::
  "'l \<Rightarrow> ('l, 'r) JoinResult list \<Rightarrow> 'r \<Rightarrow> ('l, 'r) JoinResult list" where
  "SimpleJoin_row_body b result r = result @ [\<lparr> base = b, joined = Some r \<rparr>]"

definition SimpleJoin_left_body ::
  "('k, 'r) unordered_multimap \<Rightarrow> ('l, 'r) JoinResult list \<Rightarrow> ('k, 'l) KV
     \<Rightarrow> ('l, 'r) JoinResult list" where
  "SimpleJoin_left_body right_map result left_value =
     (let range = equal_range right_map (kv_key left_value) in
      if range = [] then result @ [\<lparr> base = kv_value left_value, joined = None \<rparr>]
      else foldl (SimpleJoin_row_body (kv_value left_value)) result range)"

definition SimpleJoinAdapter ::
  "('r \<Rightarrow> 'r list \<Rightarrow> 'r list) \<Rightarrow> ('itr, ('k, 'r) KV) flow \<Rightarrow> ('itl, ('k, 'l) KV) flow
     \<Rightarrow> (nat, ('l, 'r) JoinResult) flow option" where
  "SimpleJoinAdapter place right left =
     do { right_map \<leftarrow> range_for right
            (\<lambda>m right_value. emplace place (kv_key right_value) (kv_value right_value) m)
            (\<lambda>k. []);
          result \<leftarrow> range_for left (SimpleJoin_left_body right_map) [];
          Some (AsDataFlow result) }"

subsection \<open>AggregateByKey\<close>

text \<open>
  \<^verbatim>\<open>std::unordered_map\<close> is a partial map. \<^verbatim>\<open>aggregated_map[key]\<close> inserts a
  value-initialised accumulator when the key is missing, \<open>dflt\<close> below, and gives the
  entry. The aggregator changes the accumulator it is handed by reference: \<open>aggregator\<close>
  gives the accumulator after the call. \<^verbatim>\<open>processed_keys\<close> is a set, and
  \<^verbatim>\<open>insert(key).second\<close> says whether the key was new.
\<close>

type_synonym ('k, 'v) unordered_map = "'k \<Rightarrow> 'v option"

definition subscript :: "'v \<Rightarrow> ('k, 'v) unordered_map \<Rightarrow> 'k \<Rightarrow> 'v \<times> ('k, 'v) unordered_map" where
  "subscript dflt m k = (case m k of None \<Rightarrow> (dflt, m(k \<mapsto> dflt)) | Some v \<Rightarrow> (v, m))"

text \<open>The branch of \<^verbatim>\<open>if constexpr (std::is_same_v<ValueType, std::string>)\<close>: three loops.\<close>

definition Aggregate_string_seed ::
  "'acc \<Rightarrow> 'acc \<Rightarrow> (string, 'acc) unordered_map \<Rightarrow> string \<Rightarrow> (string, 'acc) unordered_map" where
  "Aggregate_string_seed dflt initial_value m v =
     (case subscript dflt m v of (_, m') \<Rightarrow> m'(v \<mapsto> initial_value))"

definition Aggregate_string_fold ::
  "'acc \<Rightarrow> ('acc \<Rightarrow> string \<Rightarrow> 'acc) \<Rightarrow> (string, 'acc) unordered_map \<Rightarrow> string
     \<Rightarrow> (string, 'acc) unordered_map" where
  "Aggregate_string_fold dflt aggregator m v =
     (case subscript dflt m v of (a, m') \<Rightarrow> m'(v \<mapsto> aggregator a v))"

definition Aggregate_string_emit ::
  "'acc \<Rightarrow> (string, 'acc) unordered_map \<times> (string \<times> 'acc) list \<times> string set \<Rightarrow> string
     \<Rightarrow> (string, 'acc) unordered_map \<times> (string \<times> 'acc) list \<times> string set" where
  "Aggregate_string_emit dflt st v =
     (case st of (m, result, processed_keys) \<Rightarrow>
        if v \<notin> processed_keys
        then (case subscript dflt m v of (a, m') \<Rightarrow>
                (m', result @ [(v, a)], insert v processed_keys))
        else (m, result, processed_keys))"

definition AggregateByKeyAdapter_string ::
  "'acc \<Rightarrow> 'acc \<Rightarrow> ('acc \<Rightarrow> string \<Rightarrow> 'acc) \<Rightarrow> (string \<Rightarrow> 'k) \<Rightarrow> ('it, string) flow
     \<Rightarrow> (nat, string \<times> 'acc) flow option" where
  "AggregateByKeyAdapter_string dflt initial_value aggregator key_selector prev =
     do { m1 \<leftarrow> range_for prev (Aggregate_string_seed dflt initial_value) Map.empty;
          m2 \<leftarrow> range_for prev (Aggregate_string_fold dflt aggregator) m1;
          st \<leftarrow> range_for prev (Aggregate_string_emit dflt) (m2, [], {});
          case st of (_, result, _) \<Rightarrow> Some (AsDataFlow result) }"

text \<open>The other branch: two loops, the keys given by \<^verbatim>\<open>key_selector_\<close>.\<close>

definition Aggregate_fold ::
  "'acc \<Rightarrow> 'acc \<Rightarrow> ('acc \<Rightarrow> 'a \<Rightarrow> 'acc) \<Rightarrow> ('a \<Rightarrow> 'k) \<Rightarrow> ('k, 'acc) unordered_map \<Rightarrow> 'a
     \<Rightarrow> ('k, 'acc) unordered_map" where
  "Aggregate_fold dflt initial_value aggregator key_selector m v =
     (let k = key_selector v;
          m1 = (if m k = None
                then (case subscript dflt m k of (_, m') \<Rightarrow> m'(k \<mapsto> initial_value))
                else m)
      in case subscript dflt m1 k of (a, m2) \<Rightarrow> m2(k \<mapsto> aggregator a v))"

definition Aggregate_emit ::
  "'acc \<Rightarrow> ('a \<Rightarrow> 'k) \<Rightarrow> ('k, 'acc) unordered_map \<times> ('k \<times> 'acc) list \<times> 'k set \<Rightarrow> 'a
     \<Rightarrow> ('k, 'acc) unordered_map \<times> ('k \<times> 'acc) list \<times> 'k set" where
  "Aggregate_emit dflt key_selector st v =
     (let k = key_selector v in
      case st of (m, result, processed_keys) \<Rightarrow>
        if k \<notin> processed_keys
        then (case subscript dflt m k of (a, m') \<Rightarrow>
                (m', result @ [(k, a)], insert k processed_keys))
        else (m, result, processed_keys))"

definition AggregateByKeyAdapter_other ::
  "'acc \<Rightarrow> 'acc \<Rightarrow> ('acc \<Rightarrow> 'a \<Rightarrow> 'acc) \<Rightarrow> ('a \<Rightarrow> 'k) \<Rightarrow> ('it, 'a) flow
     \<Rightarrow> (nat, 'k \<times> 'acc) flow option" where
  "AggregateByKeyAdapter_other dflt initial_value aggregator key_selector prev =
     do { m \<leftarrow> range_for prev (Aggregate_fold dflt initial_value aggregator key_selector)
                 Map.empty;
          st \<leftarrow> range_for prev (Aggregate_emit dflt key_selector) (m, [], {});
          case st of (_, result, _) \<Rightarrow> Some (AsDataFlow result) }"

subsection \<open>SplitExpected\<close>

datatype ('v, 'e) expected = Expected (the_value: 'v) | Unexpected (the_error: 'e)

definition has_value :: "('v, 'e) expected \<Rightarrow> bool" where
  "has_value x = (case x of Expected _ \<Rightarrow> True | Unexpected _ \<Rightarrow> False)"

text \<open>\<^verbatim>\<open>SplitExpectedBaseAdapter::operator()\<close>: the state is \<^verbatim>\<open>(good_results, bad_results)\<close>.\<close>

definition SplitExpectedBase_body ::
  "'v list \<times> 'e list \<Rightarrow> ('v, 'e) expected \<Rightarrow> 'v list \<times> 'e list" where
  "SplitExpectedBase_body st x =
     (case st of (good_results, bad_results) \<Rightarrow>
        if has_value x then (good_results @ [the_value x], bad_results)
        else (good_results, bad_results @ [the_error x]))"

definition SplitExpectedBaseAdapter ::
  "('it, ('v, 'e) expected) flow \<Rightarrow> ((nat, 'e) flow \<times> (nat, 'v) flow) option" where
  "SplitExpectedBaseAdapter prev =
     do { st \<leftarrow> range_for prev SplitExpectedBase_body ([], []);
          case st of (good_results, bad_results) \<Rightarrow>
            Some (AsDataFlow bad_results, AsDataFlow good_results) }"

text \<open>
  \<^verbatim>\<open>SplitExpectedTransformAdapter\<close>: the state of both loops is \<^verbatim>\<open>(errors, values)\<close>.
  \<^verbatim>\<open>operator()\<close> chooses between them by \<^verbatim>\<open>if constexpr (detail::IsExpectedV<ValueType>)\<close>,
  that is by the element type of its input, so it is one function for each of the two
  kinds of input; both take the adapter's \<^verbatim>\<open>func_\<close>.
\<close>

definition split_existing_body ::
  "'e list \<times> 'v list \<Rightarrow> ('v, 'e) expected \<Rightarrow> 'e list \<times> 'v list" where
  "split_existing_body st x =
     (case st of (errors, values) \<Rightarrow>
        if has_value x then (errors, values @ [the_value x])
        else (errors @ [the_error x], values))"

definition split_existing_expected ::
  "('it, ('v, 'e) expected) flow \<Rightarrow> ((nat, 'e) flow \<times> (nat, 'v) flow) option" where
  "split_existing_expected prev =
     do { st \<leftarrow> range_for prev split_existing_body ([], []);
          case st of (errors, values) \<Rightarrow> Some (AsDataFlow errors, AsDataFlow values) }"

definition apply_and_split ::
  "('a \<Rightarrow> ('v, 'e) expected) \<Rightarrow> ('it, 'a) flow \<Rightarrow> ((nat, 'e) flow \<times> (nat, 'v) flow) option" where
  "apply_and_split func prev =
     do { st \<leftarrow> range_for prev (\<lambda>st elem. split_existing_body st (func elem)) ([], []);
          case st of (errors, values) \<Rightarrow> Some (AsDataFlow errors, AsDataFlow values) }"

definition SplitExpectedTransformAdapter_expected ::
  "'f \<Rightarrow> ('it, ('v, 'e) expected) flow \<Rightarrow> ((nat, 'e) flow \<times> (nat, 'v) flow) option" where
  "SplitExpectedTransformAdapter_expected func prev = split_existing_expected prev"

definition SplitExpectedTransformAdapter_other ::
  "('a \<Rightarrow> ('v, 'e) expected) \<Rightarrow> ('it, 'a) flow \<Rightarrow> ((nat, 'e) flow \<times> (nat, 'v) flow) option" where
  "SplitExpectedTransformAdapter_other func prev = apply_and_split func prev"

text \<open>
  \<^verbatim>\<open>SplitExpected()\<close> is the same adapter holding the identity lambda, here on an input of
  fallible results.
\<close>

definition SplitExpected0 ::
  "('it, ('v, 'e) expected) flow \<Rightarrow> ((nat, 'e) flow \<times> (nat, 'v) flow) option" where
  "SplitExpected0 prev =
     SplitExpectedTransformAdapter_expected (\<lambda>x :: ('v, 'e) expected. x) prev"

section \<open>Specification-level notions\<close>

text \<open>
  The elements a traversal visits from a cursor on, as a relation: the loop of
  \<^const>\<open>AsVector_loop\<close> returns exactly when it holds.
\<close>

inductive visits :: "('it, 'a) flow \<Rightarrow> 'it \<Rightarrow> 'it \<Rightarrow> 'a list \<Rightarrow> bool" where
  visits_end: "\<not> flow_ne prev it e \<Longrightarrow> visits prev e it []"
| visits_step: "flow_ne prev it e \<Longrightarrow> flow_incr prev it = Some it' \<Longrightarrow> visits prev e it' xs
     \<Longrightarrow> visits prev e it (flow_deref prev it # xs)"

text \<open>
  The tokens of one chunk, in the spec's words: the substrings between delimiters, an
  empty one between two delimiters in a row and after a delimiter that ends the chunk.
\<close>

fun tokens :: "string \<Rightarrow> string \<Rightarrow> string list" where
  "tokens delims [] = [[]]"
| "tokens delims (c # cs) =
     (if c \<in> set delims then [] # tokens delims cs
      else (case tokens delims cs of [] \<Rightarrow> [[c]] | t # ts \<Rightarrow> (c # t) # ts))"

text \<open>
  The distinct elements of a list in the order of their first occurrence: the head, then
  the first occurrences of the rest without it.
\<close>

fun first_occurrences :: "'a list \<Rightarrow> 'a list" where
  "first_occurrences [] = []"
| "first_occurrences (x # xs) = x # filter (\<lambda>y. y \<noteq> x) (first_occurrences xs)"

text \<open>
  Two states the proofs name: the end cursor of a \<^const>\<open>SplitFlow\<close> over a container of
  \<open>n\<close> chunks, as \<^const>\<open>SplitFlow_Iterator\<close> builds it (\<^verbatim>\<open>current_pos_\<close> keeps its
  initial value 0), and the multimap after the first loop of a join.
\<close>

definition split_end :: "nat \<Rightarrow> string \<Rightarrow> nat SplitFlow_Iterator" where
  "split_end n ds = \<lparr> current = n, end_it = n, delimiters = ds, current_token = [],
      current_content = [], current_pos = Some 0 \<rparr>"

definition build_right_map ::
  "('v \<Rightarrow> 'v list \<Rightarrow> 'v list) \<Rightarrow> ('r \<Rightarrow> 'k) \<Rightarrow> ('r \<Rightarrow> 'v) \<Rightarrow> ('k, 'v) unordered_multimap
     \<Rightarrow> 'r list \<Rightarrow> ('k, 'v) unordered_multimap" where
  "build_right_map place rk rv m rs = foldl (\<lambda>m r. emplace place (rk r) (rv r) m) m rs"

section \<open>Types and functions of the tests\<close>

text \<open>
  \<^verbatim>\<open>tests/join_ut.cpp\<close> joins students with groups. \<^verbatim>\<open>Student\<close> holds a \<^verbatim>\<open>std::string\<close>, so
  its move constructor empties the name of its source (this is what the move constructor
  of \<^verbatim>\<open>std::string\<close> does in libstdc++, libc++ and the MSVC library; the standard only
  says that the source is left valid).
\<close>

record Student =
  group_id :: nat
  name :: string

record Group =
  id' :: nat
  name' :: string

definition Student_moved_from :: "Student \<Rightarrow> Student" where
  "Student_moved_from s = s \<lparr> name := [] \<rparr>"

text \<open>\<^verbatim>\<open>tests/split_expected_ut.cpp\<close>: \<^verbatim>\<open>ParseDepartment\<close>.\<close>

datatype Department = Department string

definition ParseDepartment :: "string \<Rightarrow> (Department, string) expected" where
  "ParseDepartment str =
     (if str = [] then Unexpected ''Department name is empty''
      else if CHR '' '' \<in> set str then Unexpected ''Department name contains space''
      else Expected (Department str))"

section \<open>Traversals\<close>

declare AsVector_loop.simps [code]
declare skip_unmatched.simps [code]
declare range_for_loop.simps [code]

text \<open>The loop of \<^const>\<open>AsVector\<close> returns a list exactly when the traversal visits it.\<close>

lemma visits_loop: "visits prev e it xs \<Longrightarrow> AsVector_loop prev it e acc = Some (acc @ xs)"
proof (induction arbitrary: acc rule: visits.induct)
  case (visits_end prev it e)
  then show ?case by (subst AsVector_loop.simps) simp
next
  case (visits_step prev it e it' xs)
  show ?case
    using visits_step.hyps(1,2) visits_step.IH [of "acc @ [flow_deref prev it]"]
    by (subst AsVector_loop.simps) simp
qed

lemma loop_visits:
  "AsVector_loop prev it e acc = Some ys \<Longrightarrow> \<exists>xs. visits prev e it xs \<and> ys = acc @ xs"
proof (induction rule: AsVector_loop.raw_induct [rotated 1, consumes 1])
  case (1 loop prev it e acc ys)
  show ?case
  proof (cases "flow_ne prev it e")
    case False
    with 1(2) show ?thesis by (auto intro: visits_end)
  next
    case True
    with 1(2) obtain it' where inc: "flow_incr prev it = Some it'"
      and rec: "loop prev it' e (acc @ [flow_deref prev it]) = Some ys"
      by (auto simp: bind_eq_Some_conv)
    from 1(1) [OF rec] obtain xs where "visits prev e it' xs" "ys = (acc @ [flow_deref prev it]) @ xs"
      by blast
    with True inc show ?thesis by (auto intro: visits_step)
  qed
qed

lemma AsVector_Some_iff:
  "AsVector prev = Some xs \<longleftrightarrow>
     (\<exists>b e. flow_begin prev = Some b \<and> flow_end prev = Some e \<and> visits prev e b xs)"
  unfolding AsVector_def
  by (auto simp: bind_eq_Some_conv visits_loop dest!: loop_visits)

subsection \<open>Containers\<close>

lemma DataFlowSource_sel [simp]:
  "flow_begin (DataFlowSource xs) = Some 0"
  "flow_end (DataFlowSource xs) = Some (length xs)"
  "flow_ne (DataFlowSource xs) i j \<longleftrightarrow> i \<noteq> j"
  "flow_deref (DataFlowSource xs) i = xs ! i"
  "flow_incr (DataFlowSource xs) i = Some (Suc i)"
  by (simp_all add: DataFlowSource_def)

subsection \<open>Transform: the traversal of the upstream, mapped\<close>

lemma TransformedFlow_sel [simp]:
  "flow_begin (TransformedFlow prev f) =
     map_option (\<lambda>b. \<lparr>transform_it = b, transform_func = f\<rparr>) (flow_begin prev)"
  "flow_end (TransformedFlow prev f) =
     map_option (\<lambda>e. \<lparr>transform_it = e, transform_func = f\<rparr>) (flow_end prev)"
  "flow_ne (TransformedFlow prev f) i j \<longleftrightarrow> flow_ne prev (transform_it i) (transform_it j)"
  "flow_deref (TransformedFlow prev f) i = transform_func i (flow_deref prev (transform_it i))"
  "flow_incr (TransformedFlow prev f) i =
     map_option (\<lambda>n. i\<lparr>transform_it := n\<rparr>) (flow_incr prev (transform_it i))"
  by (simp_all add: TransformedFlow_def map_option_case bind_eq_None_conv split: option.splits)

lemma visits_source:
  "i \<le> length xs \<Longrightarrow> visits (DataFlowSource xs) (length xs) i (drop i xs)"
proof (induction "length xs - i" arbitrary: i)
  case 0
  then show ?case by (auto intro!: visits_end)
next
  case (Suc n)
  then have lt: "i < length xs" by simp
  have "visits (DataFlowSource xs) (length xs) (Suc i) (drop (Suc i) xs)"
    using Suc lt by (intro Suc.hyps(1)) simp_all
  then have "visits (DataFlowSource xs) (length xs) i
               (flow_deref (DataFlowSource xs) i # drop (Suc i) xs)"
    using lt by (intro visits_step) simp_all
  then show ?case using lt by (simp add: Cons_nth_drop_Suc)
qed

lemma AsVector_source: "AsVector (DataFlowSource xs) = Some xs"
  using visits_source [of 0 xs]
  by (simp add: AsVector_Some_iff)

lemma visits_Transform:
  "visits prev e it xs \<Longrightarrow>
   visits (TransformedFlow prev f) \<lparr>transform_it = e, transform_func = f\<rparr>
     \<lparr>transform_it = it, transform_func = f\<rparr> (map f xs)"
proof (induction rule: visits.induct)
  case (visits_end prev it e)
  then show ?case by (auto intro!: visits.visits_end)
next
  case (visits_step prev it e it' xs)
  have "visits (TransformedFlow prev f) \<lparr>transform_it = e, transform_func = f\<rparr>
     \<lparr>transform_it = it, transform_func = f\<rparr>
     (flow_deref (TransformedFlow prev f) \<lparr>transform_it = it, transform_func = f\<rparr> # map f xs)"
    using visits_step by (intro visits.visits_step [where it' = "\<lparr>transform_it = it', transform_func = f\<rparr>"])
      simp_all
  then show ?case by simp
qed

lemma Transform_visits:
  "visits F je j ys \<Longrightarrow> F = TransformedFlow prev f \<Longrightarrow>
   \<exists>xs. visits prev (transform_it je) (transform_it j) xs"
proof (induction rule: visits.induct)
  case (visits_end F it e)
  then show ?case by (auto intro!: visits.visits_end)
next
  case (visits_step F it e it' xs)
  then obtain n where n: "flow_incr prev (transform_it it) = Some n" "it' = it\<lparr>transform_it := n\<rparr>"
    by auto
  from visits_step obtain zs where "visits prev (transform_it e) n zs"
    using n by auto
  moreover have "flow_ne prev (transform_it it) (transform_it e)"
    using visits_step by simp
  ultimately show ?case using n(1) by (blast intro: visits.visits_step)
qed

lemma AsVector_Transform:
  "AsVector (TransformedFlow prev f) = map_option (map f) (AsVector prev)"
proof (cases "AsVector prev")
  case (Some xs)
  then obtain b e where "flow_begin prev = Some b" "flow_end prev = Some e" "visits prev e b xs"
    by (auto simp: AsVector_Some_iff)
  then have "AsVector (TransformedFlow prev f) = Some (map f xs)"
    by (subst AsVector_Some_iff) (auto intro: visits_Transform)
  with Some show ?thesis by simp
next
  case None
  have "AsVector (TransformedFlow prev f) = None"
  proof (rule ccontr)
    assume "AsVector (TransformedFlow prev f) \<noteq> None"
    then obtain ys where "AsVector (TransformedFlow prev f) = Some ys" by auto
    then obtain jb je where j: "flow_begin (TransformedFlow prev f) = Some jb"
      "flow_end (TransformedFlow prev f) = Some je" "visits (TransformedFlow prev f) je jb ys"
      by (auto simp: AsVector_Some_iff)
    from Transform_visits [OF j(3) refl] obtain xs where
      "visits prev (transform_it je) (transform_it jb) xs" by blast
    moreover from j(1,2) have "flow_begin prev = Some (transform_it jb)"
      "flow_end prev = Some (transform_it je)"
      by auto
    ultimately have "AsVector prev = Some xs" by (auto simp: AsVector_Some_iff)
    with None show False by simp
  qed
  with None show ?thesis by simp
qed

subsection \<open>Filter\<close>

text \<open>
  Over any upstream whose traversal ends and whose end cursor does not differ from itself,
  the filtered flow visits the elements that satisfy the predicate.
\<close>

lemma FilteredFlow_sel [simp]:
  "flow_begin (FilteredFlow prev p) =
     do { b \<leftarrow> flow_begin prev; e \<leftarrow> flow_end prev;
          skip_unmatched prev \<lparr>filter_current = b, filter_end = e, predicate = p\<rparr> }"
  "flow_end (FilteredFlow prev p) =
     do { e \<leftarrow> flow_end prev;
          skip_unmatched prev \<lparr>filter_current = e, filter_end = e, predicate = p\<rparr> }"
  "flow_ne (FilteredFlow prev p) i j \<longleftrightarrow> flow_ne prev (filter_current i) (filter_current j)"
  "flow_deref (FilteredFlow prev p) i = flow_deref prev (filter_current i)"
  "flow_incr (FilteredFlow prev p) i =
     do { n \<leftarrow> flow_incr prev (filter_current i);
          skip_unmatched prev (i\<lparr>filter_current := n\<rparr>) }"
  by (simp_all add: FilteredFlow_def FilteredFlow_Iterator_def)

lemma skip_unmatched_stop:
  "\<not> flow_ne prev (filter_current i) (filter_end i) \<or> predicate i (flow_deref prev (filter_current i))
   \<Longrightarrow> skip_unmatched prev i = Some i"
  by (subst skip_unmatched.simps) auto

lemma skip_unmatched_go:
  "flow_ne prev (filter_current i) (filter_end i) \<Longrightarrow>
   \<not> predicate i (flow_deref prev (filter_current i)) \<Longrightarrow>
   flow_incr prev (filter_current i) = Some n \<Longrightarrow>
   skip_unmatched prev i = skip_unmatched prev (i\<lparr>filter_current := n\<rparr>)"
  by (subst skip_unmatched.simps) simp

lemma visits_Filter:
  "visits prev e it xs \<Longrightarrow>
   \<exists>j. skip_unmatched prev \<lparr>filter_current = it, filter_end = e, predicate = p\<rparr> = Some j
     \<and> visits (FilteredFlow prev p) \<lparr>filter_current = e, filter_end = e, predicate = p\<rparr> j
          (filter p xs)"
proof (induction rule: visits.induct)
  case (visits_end prev it e)
  let ?i = "\<lparr>filter_current = it, filter_end = e, predicate = p\<rparr>"
  have "skip_unmatched prev ?i = Some ?i"
    using visits_end by (intro skip_unmatched_stop) simp
  moreover have "visits (FilteredFlow prev p) \<lparr>filter_current = e, filter_end = e, predicate = p\<rparr> ?i []"
    using visits_end by (intro visits.visits_end) simp
  ultimately show ?case by auto
next
  case (visits_step prev it e it' xs)
  let ?i = "\<lparr>filter_current = it, filter_end = e, predicate = p\<rparr>"
  let ?E = "\<lparr>filter_current = e, filter_end = e, predicate = p\<rparr>"
  from visits_step.IH obtain j' where
    j': "skip_unmatched prev \<lparr>filter_current = it', filter_end = e, predicate = p\<rparr> = Some j'"
    and v': "visits (FilteredFlow prev p) ?E j' (filter p xs)"
    by blast
  show ?case
  proof (cases "p (flow_deref prev it)")
    case True
    have "skip_unmatched prev ?i = Some ?i"
      using True by (intro skip_unmatched_stop) simp
    moreover have "visits (FilteredFlow prev p) ?E ?i (flow_deref (FilteredFlow prev p) ?i # filter p xs)"
      using visits_step.hyps(1,2) j' v' by (intro visits.visits_step [where it' = j']) simp_all
    ultimately show ?thesis using True by simp
  next
    case False
    have "skip_unmatched prev ?i = skip_unmatched prev (?i\<lparr>filter_current := it'\<rparr>)"
      using False visits_step.hyps(1,2) by (intro skip_unmatched_go) simp_all
    with j' v' False show ?thesis by simp
  qed
qed

lemma AsVector_Filter:
  assumes "AsVector prev = Some xs" and "flow_end prev = Some e" and "\<not> flow_ne prev e e"
  shows "AsVector (FilteredFlow prev p) = Some (filter p xs)"
proof -
  from assms(1,2) obtain b where b: "flow_begin prev = Some b" and v: "visits prev e b xs"
    by (auto simp: AsVector_Some_iff)
  let ?E = "\<lparr>filter_current = e, filter_end = e, predicate = p\<rparr>"
  from visits_Filter [OF v, of p] obtain j where
    j: "skip_unmatched prev \<lparr>filter_current = b, filter_end = e, predicate = p\<rparr> = Some j"
    and vj: "visits (FilteredFlow prev p) ?E j (filter p xs)"
    by blast
  have E: "skip_unmatched prev ?E = Some ?E"
    using assms(3) by (intro skip_unmatched_stop) simp
  show ?thesis
    using b assms(2) j vj E by (subst AsVector_Some_iff) simp
qed

lemma AsVector_Filter_source:
  "AsVector (Filter p (AsDataFlow xs)) = Some (filter p xs)"
  unfolding Filter_def AsDataFlow_def DataFlow_def
  by (rule AsVector_Filter [where e = "length xs"]) (simp_all add: AsVector_source)

subsection \<open>Split over a container of chunks\<close>

lemma tokens_nonempty [simp]: "tokens ds s \<noteq> []"
  by (induction s) (auto split: list.splits)

lemma SplitFlow_sel [simp]:
  "flow_begin (SplitFlow prev ds) =
     do { b \<leftarrow> flow_begin prev; e \<leftarrow> flow_end prev; SplitFlow_Iterator prev b e ds }"
  "flow_end (SplitFlow prev ds) = do { e \<leftarrow> flow_end prev; SplitFlow_Iterator prev e e ds }"
  "flow_ne (SplitFlow prev ds) i j \<longleftrightarrow>
     \<not> (\<not> flow_ne prev (current i) (current j) \<and> current_pos i = None)"
  "flow_deref (SplitFlow prev ds) i = current_token i"
  "flow_incr (SplitFlow prev ds) i = next_token prev i"
  by (simp_all add: SplitFlow_def)

declare find_first_of.simps [simp del]

lemma find_first_of_None:
  "p \<le> length c \<Longrightarrow> find_first_of c ds p = None \<Longrightarrow> tokens ds (drop p c) = [drop p c]"
proof (induction c ds p rule: find_first_of.induct)
  case (1 s chars pos)
  show ?case
  proof (cases "length s \<le> pos")
    case True
    with 1 show ?thesis by simp
  next
    case False
    then have d: "drop pos s = s ! pos # drop (Suc pos) s"
      by (simp add: Cons_nth_drop_Suc)
    from False 1(3) have nd: "s ! pos \<notin> set chars" and r: "find_first_of s chars (Suc pos) = None"
      by (auto simp: find_first_of.simps [of s chars pos] split: if_splits)
    from 1(1) [OF False nd _ r] False have "tokens chars (drop (Suc pos) s) = [drop (Suc pos) s]"
      by simp
    with d nd show ?thesis by simp
  qed
qed

lemma find_first_of_Some:
  "find_first_of c ds p = Some e \<Longrightarrow>
     p \<le> e \<and> e < length c \<and>
     tokens ds (drop p c) = take (e - p) (drop p c) # tokens ds (drop (Suc e) c)"
proof (induction c ds p rule: find_first_of.induct)
  case (1 s chars pos)
  from 1(2) have lt: "pos < length s"
    by (auto simp: find_first_of.simps [of s chars pos] split: if_splits)
  then have d: "drop pos s = s ! pos # drop (Suc pos) s"
    by (simp add: Cons_nth_drop_Suc)
  show ?case
  proof (cases "s ! pos \<in> set chars")
    case True
    with 1(2) lt have "e = pos" by (simp add: find_first_of.simps [of s chars pos])
    with True d lt show ?thesis by simp
  next
    case False
    with 1(2) lt have r: "find_first_of s chars (Suc pos) = Some e"
      by (simp add: find_first_of.simps [of s chars pos])
    from 1(1) [OF _ False r] lt have IH: "Suc pos \<le> e" "e < length s"
      "tokens chars (drop (Suc pos) s) = take (e - Suc pos) (drop (Suc pos) s) # tokens chars (drop (Suc e) s)"
      by simp_all
    have "take (e - pos) (drop pos s) = s ! pos # take (e - Suc pos) (drop (Suc pos) s)"
    proof -
      from IH(1) have "e - pos = Suc (e - Suc pos)" by simp
      with d show ?thesis by simp
    qed
    with IH d False show ?thesis by simp
  qed
qed

lemma scan_token_visits:
  assumes k: "k < length chunks"
    and rest: "\<And>t. visits (SplitFlow (DataFlowSource chunks) ds) (split_end (length chunks) ds)
        \<lparr>current = k, end_it = length chunks, delimiters = ds, current_token = t,
          current_content = c, current_pos = None\<rparr> (t # rest)"
  shows "p \<le> length c \<Longrightarrow>
    \<exists>s. scan_token \<lparr>current = k, end_it = length chunks, delimiters = ds, current_token = t0,
          current_content = c, current_pos = Some p\<rparr> = Some s
      \<and> visits (SplitFlow (DataFlowSource chunks) ds) (split_end (length chunks) ds) s
          (tokens ds (drop p c) @ rest)"
proof (induction "length c - p" arbitrary: p t0 rule: less_induct)
  case less
  let ?F = "SplitFlow (DataFlowSource chunks) ds"
  let ?E = "split_end (length chunks) ds"
  let ?st = "\<lambda>t pos. \<lparr>current = k, end_it = length chunks, delimiters = ds, current_token = t,
          current_content = c, current_pos = pos\<rparr>"
  show ?case
  proof (cases "find_first_of c ds p")
    case None
    have "scan_token (?st t0 (Some p)) = Some (?st (drop p c) None)"
      using None less.prems by (simp add: scan_token_def substr_def)
    moreover have "tokens ds (drop p c) = [drop p c]"
      using find_first_of_None [OF less.prems None] .
    ultimately show ?thesis using rest [of "drop p c"] by simp
  next
    case (Some e)
    from find_first_of_Some [OF Some] have e: "p \<le> e" "e < length c"
      and tk: "tokens ds (drop p c) = take (e - p) (drop p c) # tokens ds (drop (Suc e) c)"
      by simp_all
    let ?t = "take (e - p) (drop p c)"
    have sc: "scan_token (?st t0 (Some p)) = Some (?st ?t (Some (Suc e)))"
      using Some less.prems by (simp add: scan_token_def substr_def)
    from e have "length c - Suc e < length c - p" "Suc e \<le> length c" by arith+
    from less.hyps [OF this, of "[]"] obtain s' where
      s': "scan_token (?st [] (Some (Suc e))) = Some s'"
      and v': "visits ?F ?E s' (tokens ds (drop (Suc e) c) @ rest)"
      by auto
    have nt: "next_token (DataFlowSource chunks) (?st ?t (Some (Suc e))) = Some s'"
      using k s' by (simp add: next_token_def)
    have "visits ?F ?E (?st ?t (Some (Suc e)))
            (flow_deref ?F (?st ?t (Some (Suc e))) # (tokens ds (drop (Suc e) c) @ rest))"
      using nt v' by (intro visits.visits_step [where it' = s']) (simp_all add: split_end_def)
    with sc tk show ?thesis by simp
  qed
qed

lemma chunk_end_visits:
  "k < length chunks \<Longrightarrow>
   visits (SplitFlow (DataFlowSource chunks) ds) (split_end (length chunks) ds)
     \<lparr>current = k, end_it = length chunks, delimiters = ds, current_token = t,
       current_content = c, current_pos = None\<rparr>
     (t # concat (map (tokens ds) (drop (Suc k) chunks)))"
proof (induction "length chunks - k" arbitrary: k t c)
  case 0
  then show ?case by simp
next
  case (Suc m)
  let ?F = "SplitFlow (DataFlowSource chunks) ds"
  let ?E = "split_end (length chunks) ds"
  let ?i = "\<lparr>current = k, end_it = length chunks, delimiters = ds, current_token = t,
       current_content = c, current_pos = None\<rparr>"
  have ne: "flow_ne ?F ?i ?E" using Suc.prems by (simp add: split_end_def)
  show ?case
  proof (cases "Suc k = length chunks")
    case True
    let ?j = "\<lparr>current = Suc k, end_it = length chunks, delimiters = ds, current_token = [],
       current_content = c, current_pos = None\<rparr>"
    have "next_token (DataFlowSource chunks) ?i = Some ?j"
      using Suc.prems True by (simp add: next_token_def)
    moreover have "visits ?F ?E ?j []"
      using True by (intro visits.visits_end) (simp add: split_end_def)
    ultimately have "visits ?F ?E ?i (flow_deref ?F ?i # [])"
      using ne by (intro visits.visits_step [where it' = ?j]) simp_all
    with True show ?thesis by simp
  next
    case False
    with Suc.prems have k': "Suc k < length chunks" by simp
    let ?c = "chunks ! Suc k"
    let ?rest = "concat (map (tokens ds) (drop (Suc (Suc k)) chunks))"
    have IH: "\<And>t. visits ?F ?E \<lparr>current = Suc k, end_it = length chunks, delimiters = ds,
        current_token = t, current_content = ?c, current_pos = None\<rparr> (t # ?rest)"
      using Suc.hyps(2) k' by (intro Suc.hyps(1)) simp_all
    from scan_token_visits [OF k' IH, of 0 "[]"] obtain s where
      s: "scan_token \<lparr>current = Suc k, end_it = length chunks, delimiters = ds,
             current_token = [], current_content = ?c, current_pos = Some 0\<rparr> = Some s"
      and v: "visits ?F ?E s (tokens ds ?c @ ?rest)"
      by auto
    have "next_token (DataFlowSource chunks) ?i = Some s"
      using Suc.prems False s by (simp add: next_token_def)
    then have "visits ?F ?E ?i (flow_deref ?F ?i # (tokens ds ?c @ ?rest))"
      using ne v by (intro visits.visits_step [where it' = s]) simp_all
    moreover have "drop (Suc k) chunks = ?c # drop (Suc (Suc k)) chunks"
      using k' by (simp add: Cons_nth_drop_Suc)
    ultimately show ?thesis by simp
  qed
qed

lemma AsVector_Split:
  assumes "chunks \<noteq> []"
  shows "AsVector (SplitFlow (DataFlowSource chunks) ds) = Some (concat (map (tokens ds) chunks))"
proof -
  let ?F = "SplitFlow (DataFlowSource chunks) ds"
  let ?E = "split_end (length chunks) ds"
  from assms have k: "0 < length chunks" by simp
  let ?c = "chunks ! 0"
  have rest: "\<And>t. visits ?F ?E \<lparr>current = 0, end_it = length chunks, delimiters = ds,
        current_token = t, current_content = ?c, current_pos = None\<rparr>
        (t # concat (map (tokens ds) (drop (Suc 0) chunks)))"
    using k by (rule chunk_end_visits)
  from scan_token_visits [OF k rest, of 0 "[]"] obtain s where
    s: "scan_token \<lparr>current = 0, end_it = length chunks, delimiters = ds,
             current_token = [], current_content = ?c, current_pos = Some 0\<rparr> = Some s"
    and v: "visits ?F ?E s (tokens ds ?c @ concat (map (tokens ds) (drop (Suc 0) chunks)))"
    by auto
  have b: "flow_begin ?F = Some s"
    using k s by (simp add: SplitFlow_Iterator_def next_token_def)
  have e: "flow_end ?F = Some ?E"
    by (simp add: SplitFlow_Iterator_def split_end_def)
  have "chunks = ?c # drop (Suc 0) chunks"
    using assms by (cases chunks) simp_all
  then have "concat (map (tokens ds) chunks) = tokens ds ?c @ concat (map (tokens ds) (drop (Suc 0) chunks))"
    by (metis concat.simps(2) list.simps(9))
  with b e v show ?thesis by (subst AsVector_Some_iff) simp
qed

text \<open>
  The end cursor of a \<^const>\<open>SplitFlow\<close> has \<^verbatim>\<open>current_pos_ == 0\<close>, so its \<^verbatim>\<open>operator!=\<close>
  answers true against every cursor, itself included, and advancing it changes nothing.
  The side condition of \<open>AsVector_Filter\<close> on the end cursor is therefore needed: the
  \<^verbatim>\<open>skip_unmatched\<close> loop that \<^verbatim>\<open>FilteredFlow::end()\<close> runs on that cursor does not end when the
  predicate rejects the empty token.
\<close>

lemma next_token_split_end:
  "next_token (DataFlowSource chunks) (split_end (length chunks) ds) = Some (split_end (length chunks) ds)"
  by (simp add: next_token_def split_end_def)

lemma skip_unmatched_split_end:
  assumes "\<not> p []"
  shows "skip_unmatched (SplitFlow (DataFlowSource chunks) ds)
           \<lparr>filter_current = split_end (length chunks) ds,
             filter_end = split_end (length chunks) ds, predicate = p\<rparr> = None"
proof -
  let ?F = "SplitFlow (DataFlowSource chunks) ds"
  let ?E = "split_end (length chunks) ds"
  let ?i = "\<lparr>filter_current = ?E, filter_end = ?E, predicate = p\<rparr>"
  have "skip_unmatched prev i = Some y \<Longrightarrow> \<not> (prev = ?F \<and> i = ?i)" for prev i y
  proof (induction rule: skip_unmatched.raw_induct [rotated 1, consumes 1])
    case (1 skip prev i y)
    show ?case
    proof
      assume eq: "prev = ?F \<and> i = ?i"
      then have "flow_ne prev (filter_current i) (filter_end i)"
        "\<not> predicate i (flow_deref prev (filter_current i))"
        "flow_incr prev (filter_current i) = Some ?E"
        using assms by (simp_all add: next_token_split_end) (simp_all add: split_end_def)
      with 1(2) eq have "skip ?F ?i = Some y" by simp
      from 1(1) [OF this] show False by simp
    qed
  qed
  then show ?thesis by (cases "skip_unmatched ?F ?i") auto
qed

lemma Filter_Split_no_end:
  "\<not> p [] \<Longrightarrow> flow_end (Filter p (Split ds (AsDataFlow chunks))) = None"
  by (simp add: Filter_def Split_def AsDataFlow_def DataFlow_def SplitFlow_Iterator_def
      skip_unmatched_split_end [unfolded split_end_def])

lemma AsVector_Filter_Split:
  "\<not> p [] \<Longrightarrow> AsVector (Filter p (Split ds (AsDataFlow chunks))) = None"
  by (simp add: AsVector_def Filter_Split_no_end bind_eq_None_conv)

text \<open>Properties of \<^const>\<open>tokens\<close>.\<close>

lemma tokens_length: "length (tokens ds s) = Suc (length (filter (\<lambda>c. c \<in> set ds) s))"
  by (induction s) (auto split: list.splits)

lemma tokens_Cons_delim: "d \<in> set ds \<Longrightarrow> tokens ds (u @ d # v) = tokens ds u @ tokens ds v"
  by (induction u) (auto split: list.splits)

section \<open>The eager adapters\<close>

text \<open>A range-for over a flow is a left fold over the elements its traversal visits.\<close>

lemma visits_range_for_loop:
  "visits prev e it xs \<Longrightarrow> range_for_loop prev it e body st = Some (foldl body st xs)"
proof (induction arbitrary: st rule: visits.induct)
  case (visits_end prev it e)
  then show ?case by (subst range_for_loop.simps) simp
next
  case (visits_step prev it e it' xs)
  show ?case
    using visits_step.hyps(1,2) visits_step.IH [of "body st (flow_deref prev it)"]
    by (subst range_for_loop.simps) simp
qed

lemma range_for_loop_visits:
  "range_for_loop prev it e body st = Some st' \<Longrightarrow> \<exists>xs. visits prev e it xs"
proof (induction rule: range_for_loop.raw_induct [rotated 1, consumes 1])
  case (1 loop prev it e body st st')
  show ?case
  proof (cases "flow_ne prev it e")
    case False
    then show ?thesis by (auto intro: visits_end)
  next
    case True
    with 1(2) obtain it' where inc: "flow_incr prev it = Some it'"
      and rec: "loop prev it' e body (body st (flow_deref prev it)) = Some st'"
      by (auto simp: bind_eq_Some_conv)
    from 1(1) [OF rec] obtain xs where "visits prev e it' xs" by blast
    with True inc show ?thesis by (blast intro: visits_step)
  qed
qed

lemma range_for_AsVector:
  "range_for prev body st = map_option (foldl body st) (AsVector prev)"
proof (cases "AsVector prev")
  case (Some xs)
  then obtain b e where "flow_begin prev = Some b" "flow_end prev = Some e" "visits prev e b xs"
    by (auto simp: AsVector_Some_iff)
  then have "range_for prev body st = Some (foldl body st xs)"
    by (simp add: range_for_def visits_range_for_loop)
  with Some show ?thesis by simp
next
  case None
  have "range_for prev body st = None"
  proof (rule ccontr)
    assume "range_for prev body st \<noteq> None"
    then obtain b e st' where "flow_begin prev = Some b" "flow_end prev = Some e"
      "range_for_loop prev b e body st = Some st'"
      by (auto simp: range_for_def bind_eq_Some_conv)
    with range_for_loop_visits [of prev b e body st st'] obtain xs where "AsVector prev = Some xs"
      by (auto simp: AsVector_Some_iff)
    with None show False by simp
  qed
  with None show ?thesis by simp
qed

lemma AsVector_AsDataFlow [simp]: "AsVector (AsDataFlow xs) = Some xs"
  by (simp add: AsDataFlow_def DataFlow_def AsVector_source)

subsection \<open>Write\<close>

lemma Write_body_rest:
  "foldl (Write_body d t) (False, True, os) xs = (False, True, os @ concat (map (\<lambda>x. d # t x) xs))"
  by (induction xs arbitrary: os) (simp_all add: Write_body_def)

lemma Write_text:
  "t x @ concat (map (\<lambda>y. d # t y) xs) @ [d] = concat (map (\<lambda>y. t y @ [d]) (x # xs))"
  by (induction xs arbitrary: x) simp_all

lemma WriteAdapter_result:
  assumes "AsVector prev = Some xs"
  shows "WriteAdapter os d t prev = Some (os @ concat (map (\<lambda>x. t x @ [d]) xs), prev)"
proof (cases xs)
  case Nil
  with assms show ?thesis by (simp add: WriteAdapter_def range_for_AsVector)
next
  case (Cons x ys)
  have "foldl (Write_body d t) (True, False, os) (x # ys)
          = (False, True, (os @ t x) @ concat (map (\<lambda>y. d # t y) ys))"
    by (simp add: Write_body_rest) (simp add: Write_body_def Write_body_rest)
  with assms Cons show ?thesis
    using Write_text [of t x d ys] by (simp add: WriteAdapter_def range_for_AsVector)
qed

subsection \<open>SplitExpected\<close>

lemma SplitExpectedBase_foldl:
  "foldl SplitExpectedBase_body (good, bad) xs =
     (good @ map the_value (filter has_value xs),
      bad @ map the_error (filter (\<lambda>x. \<not> has_value x) xs))"
  by (induction xs arbitrary: good bad) (simp_all add: SplitExpectedBase_body_def)

lemma split_existing_foldl:
  "foldl split_existing_body (errors, vals) xs =
     (errors @ map the_error (filter (\<lambda>x. \<not> has_value x) xs),
      vals @ map the_value (filter has_value xs))"
  by (induction xs arbitrary: errors vals) (simp_all add: split_existing_body_def)

lemma apply_and_split_foldl:
  "foldl (\<lambda>st elem. split_existing_body st (f elem)) st xs = foldl split_existing_body st (map f xs)"
  by (induction xs arbitrary: st) simp_all

lemma apply_and_split_result:
  "AsVector prev = Some xs \<Longrightarrow>
   SplitExpectedTransformAdapter_other func prev
     = Some (AsDataFlow (map the_error (filter (\<lambda>x. \<not> has_value x) (map func xs))),
             AsDataFlow (map the_value (filter has_value (map func xs))))"
proof -
  assume "AsVector prev = Some xs"
  moreover have "foldl (\<lambda>st elem. split_existing_body st (func elem)) ([], []) xs
      = (map the_error (filter (\<lambda>x. \<not> has_value x) (map func xs)),
         map the_value (filter has_value (map func xs)))"
    by (subst apply_and_split_foldl) (simp add: split_existing_foldl)
  ultimately show ?thesis
    by (simp add: SplitExpectedTransformAdapter_other_def apply_and_split_def range_for_AsVector)
qed

subsection \<open>Join\<close>

lemma build_right_map_mset:
  "places_one place \<Longrightarrow>
   mset (build_right_map place rk rv m rs k) = mset (m k) + mset (map rv (filter (\<lambda>r. rk r = k) rs))"
  by (induction rs arbitrary: m) (auto simp: build_right_map_def emplace_def places_one_def)

lemma build_right_map_append:
  "build_right_map (\<lambda>v vs. vs @ [v]) rk rv m rs k = m k @ map rv (filter (\<lambda>r. rk r = k) rs)"
  by (induction rs arbitrary: m) (auto simp: build_right_map_def emplace_def)

lemma build_right_map_Cons:
  "build_right_map (#) rk rv m rs k = rev (map rv (filter (\<lambda>r. rk r = k) rs)) @ m k"
  by (induction rs arbitrary: m) (auto simp: build_right_map_def emplace_def)

lemma Join_rows_foldl:
  "foldl (Join_row_body mf) (result, l) ms =
     (result @ map (\<lambda>(i, r). \<lparr>base = (mf ^^ i) l, joined = Some r\<rparr>) (zip [0..<length ms] ms),
      (mf ^^ length ms) l)"
proof (induction ms arbitrary: result l rule: rev_induct)
  case Nil
  then show ?case by simp
next
  case (snoc r ms)
  then show ?case by (simp add: Join_row_body_def)
qed

lemma Join_rows_foldl_id:
  "foldl (Join_row_body (\<lambda>x. x)) (result, l) ms =
     (result @ map (\<lambda>r. \<lparr>base = l, joined = Some r\<rparr>) ms, l)"
  by (induction ms arbitrary: result) (simp_all add: Join_row_body_def)

lemma SimpleJoin_rows_foldl:
  "foldl (SimpleJoin_row_body b) result ms = result @ map (\<lambda>r. \<lparr>base = b, joined = Some r\<rparr>) ms"
  by (induction ms arbitrary: result) (simp_all add: SimpleJoin_row_body_def)

lemma Join_left_foldl:
  "foldl (Join_left_body mf lk rm) result ls =
     result @ concat (map (Join_left_body mf lk rm []) ls)"
proof (induction ls arbitrary: result)
  case Nil
  then show ?case by simp
next
  case (Cons l ls)
  have "Join_left_body mf lk rm result l = result @ Join_left_body mf lk rm [] l"
    by (simp add: Join_left_body_def Let_def Join_rows_foldl)
  with Cons show ?case by simp
qed

lemma SimpleJoin_left_foldl:
  "foldl (SimpleJoin_left_body rm) result ls =
     result @ concat (map (SimpleJoin_left_body rm []) ls)"
proof (induction ls arbitrary: result)
  case Nil
  then show ?case by simp
next
  case (Cons l ls)
  have "SimpleJoin_left_body rm result l = result @ SimpleJoin_left_body rm [] l"
    by (simp add: SimpleJoin_left_body_def Let_def SimpleJoin_rows_foldl)
  with Cons show ?case by simp
qed

lemma JoinAdapter_result:
  assumes "AsVector right = Some rs" and "AsVector left = Some ls"
  shows "JoinAdapter place mf right lk rk left =
     Some (AsDataFlow (concat (map
        (Join_left_body mf lk (build_right_map place rk (\<lambda>r. r) (\<lambda>k. []) rs) []) ls)))"
  using assms
  by (simp add: JoinAdapter_def range_for_AsVector Join_left_foldl build_right_map_def)

lemma SimpleJoinAdapter_result:
  assumes "AsVector right = Some rs" and "AsVector left = Some ls"
  shows "SimpleJoinAdapter place right left =
     Some (AsDataFlow (concat (map
        (SimpleJoin_left_body (build_right_map place kv_key kv_value (\<lambda>k. []) rs) []) ls)))"
  using assms
  by (simp add: SimpleJoinAdapter_def range_for_AsVector SimpleJoin_left_foldl build_right_map_def)

subsection \<open>AggregateByKey\<close>

lemma first_occurrences_remdups: "first_occurrences xs = rev (remdups (rev xs))"
proof (induction xs)
  case Nil
  then show ?case by simp
next
  case (Cons x xs)
  have "remdups (ys @ [x]) = filter (\<lambda>y. y \<noteq> x) (remdups ys) @ [x]" for ys
    by (induction ys) auto
  with Cons show ?case by (simp add: rev_filter)
qed

lemma set_first_occurrences [simp]: "set (first_occurrences xs) = set xs"
  by (simp add: first_occurrences_remdups)

lemma distinct_first_occurrences [simp]: "distinct (first_occurrences xs)"
  by (simp add: first_occurrences_remdups)

lemma subscript_present: "m k = Some a \<Longrightarrow> subscript dflt m k = (a, m)"
  by (simp add: subscript_def)

lemma Aggregate_fold_step:
  "Aggregate_fold dflt init agg ks m v k =
     (if k = ks v then Some (agg (case m k of None \<Rightarrow> init | Some a \<Rightarrow> a) v) else m k)"
  by (auto simp: Aggregate_fold_def Let_def subscript_def split: option.splits)

lemma Aggregate_fold_foldl:
  "foldl (Aggregate_fold dflt init agg ks) m xs k =
     (if filter (\<lambda>x. ks x = k) xs = [] then m k
      else Some (foldl agg (case m k of None \<Rightarrow> init | Some a \<Rightarrow> a) (filter (\<lambda>x. ks x = k) xs)))"
proof (induction xs arbitrary: m)
  case Nil
  then show ?case by simp
next
  case (Cons x xs)
  let ?F = "Aggregate_fold dflt init agg ks"
  let ?f = "filter (\<lambda>x. ks x = k) xs"
  have "foldl ?F m (x # xs) k = foldl ?F (?F m x) xs k" by simp
  also have "\<dots> = (if ?f = [] then ?F m x k
      else Some (foldl agg (case ?F m x k of None \<Rightarrow> init | Some a \<Rightarrow> a) ?f))"
    by (rule Cons.IH)
  also have "\<dots> = (if filter (\<lambda>x. ks x = k) (x # xs) = [] then m k
      else Some (foldl agg (case m k of None \<Rightarrow> init | Some a \<Rightarrow> a)
                   (filter (\<lambda>x. ks x = k) (x # xs))))"
    by (simp add: Aggregate_fold_step)
  finally show ?case .
qed

lemma Aggregate_emit_foldl:
  assumes "ks ` set xs \<subseteq> dom m"
  shows "foldl (Aggregate_emit dflt ks) (m, result, seen) xs =
     (m, result @ map (\<lambda>k. (k, the (m k))) (filter (\<lambda>k. k \<notin> seen) (first_occurrences (map ks xs))),
      seen \<union> ks ` set xs)"
  using assms
proof (induction xs arbitrary: result seen)
  case Nil
  then show ?case by simp
next
  case (Cons x xs)
  from Cons.prems obtain a where a: "m (ks x) = Some a" by auto
  from Cons.prems have sub: "ks ` set xs \<subseteq> dom m" by auto
  have f: "filter (\<lambda>k. k \<notin> insert (ks x) seen) ys = filter (\<lambda>k. k \<notin> seen) (filter (\<lambda>y. y \<noteq> ks x) ys)" for ys
    by (induction ys) auto
  show ?case
  proof (cases "ks x \<in> seen")
    case True
    then have "Aggregate_emit dflt ks (m, result, seen) x = (m, result, seen)"
      by (simp add: Aggregate_emit_def Let_def)
    moreover have "filter (\<lambda>k. k \<notin> seen) (filter (\<lambda>y. y \<noteq> ks x) ys) = filter (\<lambda>k. k \<notin> seen) ys" for ys
      using True by (induction ys) auto
    ultimately show ?thesis using True Cons.IH [OF sub, of result seen]
      by (auto simp: insert_absorb)
  next
    case False
    then have "Aggregate_emit dflt ks (m, result, seen) x
                 = (m, result @ [(ks x, a)], insert (ks x) seen)"
      using a by (simp add: Aggregate_emit_def subscript_present Let_def)
    then show ?thesis
      using False a Cons.IH [OF sub, of "result @ [(ks x, a)]" "insert (ks x) seen"]
      by (simp add: f)
  qed
qed

lemma AggregateByKeyAdapter_other_result:
  assumes "AsVector prev = Some xs"
  shows "AggregateByKeyAdapter_other dflt init agg ks prev =
     Some (AsDataFlow (map (\<lambda>k. (k, foldl agg init (filter (\<lambda>x. ks x = k) xs)))
                           (first_occurrences (map ks xs))))"
proof -
  let ?m = "foldl (Aggregate_fold dflt init agg ks) Map.empty xs"
  have m: "?m k = (if filter (\<lambda>x. ks x = k) xs = [] then None
                   else Some (foldl agg init (filter (\<lambda>x. ks x = k) xs)))" for k
    by (simp add: Aggregate_fold_foldl)
  have dom: "ks ` set xs \<subseteq> dom ?m"
    by (auto simp: m filter_empty_conv)
  have eq: "map (\<lambda>k. (k, the (?m k))) (first_occurrences (map ks xs))
      = map (\<lambda>k. (k, foldl agg init (filter (\<lambda>x. ks x = k) xs))) (first_occurrences (map ks xs))"
    by (rule map_cong) (auto simp: m filter_empty_conv)
  have "AggregateByKeyAdapter_other dflt init agg ks prev =
      Some (AsDataFlow (map (\<lambda>k. (k, the (?m k))) (first_occurrences (map ks xs))))"
    using assms by (simp add: AggregateByKeyAdapter_other_def range_for_AsVector
        Aggregate_emit_foldl [OF dom])
  then show ?thesis by (simp only: eq)
qed

lemma Aggregate_string_emit_eq: "Aggregate_string_emit dflt = Aggregate_emit dflt (\<lambda>x. x)"
  by (intro ext) (simp add: Aggregate_string_emit_def Aggregate_emit_def Let_def)

lemma Aggregate_string_seed_step:
  "Aggregate_string_seed dflt init m v k = (if k = v then Some init else m k)"
  by (auto simp: Aggregate_string_seed_def subscript_def split: option.splits)

lemma Aggregate_string_seed_foldl:
  "foldl (Aggregate_string_seed dflt init) m xs k = (if k \<in> set xs then Some init else m k)"
proof (induction xs arbitrary: m)
  case Nil
  then show ?case by simp
next
  case (Cons x xs)
  let ?F = "Aggregate_string_seed dflt init"
  have "foldl ?F m (x # xs) k = foldl ?F (?F m x) xs k" by simp
  also have "\<dots> = (if k \<in> set xs then Some init else ?F m x k)"
    by (rule Cons.IH)
  also have "\<dots> = (if k \<in> set (x # xs) then Some init else m k)"
    by (simp add: Aggregate_string_seed_step)
  finally show ?case .
qed

lemma Aggregate_string_fold_foldl:
  "foldl (Aggregate_string_fold dflt agg) m xs k =
     (if filter (\<lambda>x. x = k) xs = [] then m k
      else Some (foldl agg (case m k of None \<Rightarrow> dflt | Some a \<Rightarrow> a) (filter (\<lambda>x. x = k) xs)))"
proof (induction xs arbitrary: m)
  case Nil
  then show ?case by simp
next
  case (Cons x xs)
  let ?F = "Aggregate_string_fold dflt agg"
  let ?f = "filter (\<lambda>x. x = k) xs"
  have step: "?F m x k =
      (if k = x then Some (agg (case m k of None \<Rightarrow> dflt | Some a \<Rightarrow> a) x) else m k)"
    by (auto simp: Aggregate_string_fold_def subscript_def split: option.splits)
  have "foldl ?F m (x # xs) k = foldl ?F (?F m x) xs k" by simp
  also have "\<dots> = (if ?f = [] then ?F m x k
      else Some (foldl agg (case ?F m x k of None \<Rightarrow> dflt | Some a \<Rightarrow> a) ?f))"
    by (rule Cons.IH)
  also have "\<dots> = (if filter (\<lambda>x. x = k) (x # xs) = [] then m k
      else Some (foldl agg (case m k of None \<Rightarrow> dflt | Some a \<Rightarrow> a)
                   (filter (\<lambda>x. x = k) (x # xs))))"
    by (simp add: step)
  finally show ?case .
qed

lemma AggregateByKeyAdapter_string_result:
  assumes "AsVector prev = Some xs"
  shows "AggregateByKeyAdapter_string dflt init agg ks prev =
     Some (AsDataFlow (map (\<lambda>k. (k, foldl agg init (filter (\<lambda>x. x = k) xs))) (first_occurrences xs)))"
proof -
  let ?m1 = "foldl (Aggregate_string_seed dflt init) Map.empty xs"
  let ?m2 = "foldl (Aggregate_string_fold dflt agg) ?m1 xs"
  have m: "?m2 k = (if k \<in> set xs then Some (foldl agg init (filter (\<lambda>x. x = k) xs)) else None)" for k
    by (auto simp: Aggregate_string_fold_foldl Aggregate_string_seed_foldl filter_empty_conv)
  have dom: "(\<lambda>x. x) ` set xs \<subseteq> dom ?m2"
    by (auto simp: m)
  have eq: "map (\<lambda>k. (k, the (?m2 k))) (first_occurrences xs)
      = map (\<lambda>k. (k, foldl agg init (filter (\<lambda>x. x = k) xs))) (first_occurrences xs)"
    by (rule map_cong) (auto simp: m)
  have "AggregateByKeyAdapter_string dflt init agg ks prev =
      Some (AsDataFlow (map (\<lambda>k. (k, the (?m2 k))) (first_occurrences xs)))"
    using assms Aggregate_emit_foldl [OF dom, of dflt "[]" "{}"]
    by (simp add: AggregateByKeyAdapter_string_def range_for_AsVector Aggregate_string_emit_eq)
  then show ?thesis by (simp only: eq)
qed

text \<open>
  A counting aggregator is \<^verbatim>\<open>++acc\<close> on an accumulator of the type of the initial value, an
  unsigned integer of some width: a word, whose addition wraps.
\<close>

lemma count_foldl_word:
  "foldl (\<lambda>acc x. acc + 1) (n :: 'w::len word) xs = n + word_of_nat (length xs)"
  by (induction xs arbitrary: n) (simp_all add: add.assoc add.commute)

lemma first_occurrences_replicate:
  "0 < n \<Longrightarrow> first_occurrences (replicate n x) = [x]"
proof (induction n)
  case 0
  then show ?case by simp
next
  case (Suc n)
  then show ?case by (cases n) simp_all
qed

lemma AsDataFlow_inject [simp]: "AsDataFlow xs = AsDataFlow ys \<longleftrightarrow> xs = ys"
proof
  assume "AsDataFlow xs = AsDataFlow ys"
  then have "AsVector (AsDataFlow xs) = AsVector (AsDataFlow ys)" by simp
  then show "xs = ys" by simp
qed simp

subsection \<open>Further facts on Split\<close>

text \<open>
  Over an empty container the begin cursor of a \<^const>\<open>SplitFlow\<close> is its end cursor, which
  differs from itself: the traversal does not end. The traversal theorem is about
  containers that hold a chunk.
\<close>

lemma AsVector_Split_empty: "AsVector (Split ds (AsDataFlow [])) = None"
proof -
  let ?F = "SplitFlow (DataFlowSource []) ds"
  let ?E = "split_end 0 ds"
  have "AsVector_loop prev it e acc = Some ys \<Longrightarrow> \<not> (prev = ?F \<and> it = ?E \<and> e = ?E)"
    for prev it e acc ys
  proof (induction rule: AsVector_loop.raw_induct [rotated 1, consumes 1])
    case (1 loop prev it e acc ys)
    show ?case
    proof
      assume eq: "prev = ?F \<and> it = ?E \<and> e = ?E"
      then have "flow_ne prev it e" "flow_incr prev it = Some ?E"
        using next_token_split_end [of "[]" ds] by (simp_all add: split_end_def)
      with 1(2) eq have "loop ?F ?E ?E (acc @ [flow_deref ?F ?E]) = Some ys" by simp
      from 1(1) [OF this] show False by simp
    qed
  qed
  then have "AsVector_loop ?F ?E ?E [] = None"
    by (cases "AsVector_loop ?F ?E ?E []") blast+
  then show ?thesis
    by (simp add: AsVector_def Split_def AsDataFlow_def DataFlow_def SplitFlow_Iterator_def
        split_end_def)
qed

lemma tokens_two_delims:
  "d \<in> set ds \<Longrightarrow> d' \<in> set ds \<Longrightarrow> tokens ds (u @ d # d' # v) = tokens ds u @ [] # tokens ds v"
  by (simp add: tokens_Cons_delim)

lemma tokens_last_delim: "d \<in> set ds \<Longrightarrow> tokens ds (u @ [d]) = tokens ds u @ [[]]"
  by (simp add: tokens_Cons_delim)

subsection \<open>The rows of a join\<close>

lemma Join_left_body_joined:
  fixes rm :: "('k, 'r) unordered_multimap"
  shows "map joined (Join_left_body mf lk rm [] l) =
     (if rm (lk l) = [] then [None] else map Some (rm (lk l)))"
proof -
  have "map (joined \<circ> (\<lambda>(i, r). \<lparr>base = (mf ^^ i) l, joined = Some r\<rparr>)) zs
      = map Some (map snd zs)" for zs :: "(nat \<times> 'r) list"
    by (simp add: comp_def split_def)
  from this [of "zip [0..<length (rm (lk l))] (rm (lk l))"] show ?thesis
    by (simp add: Join_left_body_def equal_range_def Join_rows_foldl Let_def)
qed

lemma Join_left_body_length:
  "length (Join_left_body mf lk rm [] l) = max (length (rm (lk l))) 1"
proof (cases "rm (lk l) = []")
  case True
  then show ?thesis by (simp add: Join_left_body_def equal_range_def)
next
  case False
  then have "1 \<le> length (rm (lk l))" by (cases "rm (lk l)") simp_all
  with False show ?thesis
    by (simp add: Join_left_body_def equal_range_def Join_rows_foldl Let_def max_def)
qed

lemma Join_left_body_copy:
  "Join_left_body (\<lambda>x. x) lk rm [] l =
     (if rm (lk l) = [] then [\<lparr>base = l, joined = None\<rparr>]
      else map (\<lambda>r. \<lparr>base = l, joined = Some r\<rparr>) (rm (lk l)))"
  by (simp add: Join_left_body_def equal_range_def Join_rows_foldl_id)

lemma SimpleJoin_left_body_rows:
  "SimpleJoin_left_body rm [] l =
     (if rm (kv_key l) = [] then [\<lparr>base = kv_value l, joined = None\<rparr>]
      else map (\<lambda>r. \<lparr>base = kv_value l, joined = Some r\<rparr>) (rm (kv_key l)))"
  by (simp add: SimpleJoin_left_body_def equal_range_def SimpleJoin_rows_foldl)

lemma build_right_map_length:
  "places_one place \<Longrightarrow>
   length (build_right_map place rk rv (\<lambda>k. []) rs k) = length (filter (\<lambda>r. rk r = k) rs)"
proof -
  assume "places_one place"
  then have "mset (build_right_map place rk rv (\<lambda>k. []) rs k)
      = mset (map rv (filter (\<lambda>r. rk r = k) rs))"
    by (simp add: build_right_map_mset)
  from mset_eq_length [OF this] show ?thesis by simp
qed

lemma JoinAdapter_row_count:
  assumes "AsVector right = Some rs" and "AsVector left = Some ls" and "places_one place"
  shows "\<exists>rows. JoinAdapter place mf right lk rk left = Some (AsDataFlow rows)
      \<and> length rows = sum_list (map (\<lambda>l. max (length (filter (\<lambda>r. rk r = lk l) rs)) 1) ls)
      \<and> map joined rows = concat (map (\<lambda>l. map joined
            (Join_left_body mf lk (build_right_map place rk (\<lambda>r. r) (\<lambda>k. []) rs) [] l)) ls)"
  using assms
  by (simp add: JoinAdapter_result length_concat comp_def Join_left_body_length
      build_right_map_length map_concat)

text \<open>
  With the left element copied into each row (the selector form over a left element type
  whose move is a copy, and the \<^verbatim>\<open>KV\<close> form always) every row of a left element carries
  that element, or its value, as base.
\<close>

lemma JoinAdapter_rows_copy:
  assumes "AsVector right = Some rs" and "AsVector left = Some ls"
  shows "JoinAdapter place (\<lambda>x. x) right lk rk left =
     Some (AsDataFlow (concat (map
        (\<lambda>l. if build_right_map place rk (\<lambda>r. r) (\<lambda>k. []) rs (lk l) = []
             then [\<lparr>base = l, joined = None\<rparr>]
             else map (\<lambda>r. \<lparr>base = l, joined = Some r\<rparr>)
                    (build_right_map place rk (\<lambda>r. r) (\<lambda>k. []) rs (lk l))) ls)))"
  by (simp add: JoinAdapter_result [OF assms] Join_left_body_copy [abs_def])

lemma SimpleJoinAdapter_rows:
  assumes "AsVector right = Some rs" and "AsVector left = Some ls"
  shows "SimpleJoinAdapter place right left =
     Some (AsDataFlow (concat (map
        (\<lambda>l. if build_right_map place kv_key kv_value (\<lambda>k. []) rs (kv_key l) = []
             then [\<lparr>base = kv_value l, joined = None\<rparr>]
             else map (\<lambda>r. \<lparr>base = kv_value l, joined = Some r\<rparr>)
                    (build_right_map place kv_key kv_value (\<lambda>k. []) rs (kv_key l))) ls)))"
  by (simp add: SimpleJoinAdapter_result [OF assms] SimpleJoin_left_body_rows [abs_def])

text \<open>The test \<^verbatim>\<open>SimpleTest.JoinKV\<close> of \<^verbatim>\<open>tests/join_ut.cpp\<close>.\<close>

lemma JoinKV_test:
  "SimpleJoinAdapter (#)
     (AsDataFlow [\<lparr>kv_key = 0 :: int, kv_value = ''f''\<rparr>, \<lparr>kv_key = 1, kv_value = ''g''\<rparr>,
                  \<lparr>kv_key = 3, kv_value = ''i''\<rparr>])
     (AsDataFlow [\<lparr>kv_key = 0 :: int, kv_value = ''a''\<rparr>, \<lparr>kv_key = 1, kv_value = ''b''\<rparr>,
                  \<lparr>kv_key = 2, kv_value = ''c''\<rparr>, \<lparr>kv_key = 3, kv_value = ''d''\<rparr>,
                  \<lparr>kv_key = 1, kv_value = ''e''\<rparr>])
   = Some (AsDataFlow
       [\<lparr>base = ''a'', joined = Some ''f''\<rparr>, \<lparr>base = ''b'', joined = Some ''g''\<rparr>,
        \<lparr>base = ''c'', joined = None\<rparr>, \<lparr>base = ''d'', joined = Some ''i''\<rparr>,
        \<lparr>base = ''e'', joined = Some ''g''\<rparr>])"
  by (simp add: SimpleJoinAdapter_rows [OF AsVector_AsDataFlow AsVector_AsDataFlow]
      build_right_map_def emplace_def)

subsection \<open>The scenario of \<^verbatim>\<open>tests/split_expected_ut.cpp\<close>\<close>

lemma split_existing_expected_result:
  "AsVector prev = Some xs \<Longrightarrow>
   split_existing_expected prev
     = Some (AsDataFlow (map the_error (filter (\<lambda>x. \<not> has_value x) xs)),
             AsDataFlow (map the_value (filter has_value xs)))"
  by (simp add: split_existing_expected_def range_for_AsVector split_existing_foldl)

lemma end_to_end_scenario:
  "SplitExpectedTransformAdapter_expected ParseDepartment
     (Transform ParseDepartment
        (Split ''|'' (AsDataFlow [''good-department|bad department||another-good-department''])))
   = Some (AsDataFlow [''Department name contains space'', ''Department name is empty''],
           AsDataFlow [Department ''good-department'', Department ''another-good-department''])"
proof -
  let ?chunks = "[''good-department|bad department||another-good-department'']"
  have "AsVector (Transform ParseDepartment (Split ''|'' (AsDataFlow ?chunks)))
      = Some (map ParseDepartment (concat (map (tokens ''|'') ?chunks)))"
    by (simp add: Transform_def AsVector_Transform Split_def AsDataFlow_def DataFlow_def
        AsVector_Split del: tokens.simps)
  from split_existing_expected_result [OF this] show ?thesis
    by (simp add: SplitExpectedTransformAdapter_expected_def ParseDepartment_def has_value_def)
qed

section \<open>The claims\<close>

text \<open>
  C1 (the code departs from the claim for the selector-key form). The students
  \<^verbatim>\<open>{Student{1, "b"}}\<close> are joined with the groups \<^verbatim>\<open>{Group{1, "g"}, Group{1, "h"}}\<close> on
  the group id, so the one left element has two matches. The claim says that both rows
  carry \<^verbatim>\<open>Student{1, "b"}\<close> as base. The first row's base is move-constructed from
  \<^verbatim>\<open>left_value\<close>, so the base of the second row is the moved-from student, whose name is
  empty, whichever way the multimap orders the two groups. The number of rows, their
  order by left element and the presence of the joined field are as the claim says
  (\<open>JoinAdapter_row_count\<close>, \<open>Join_left_body_joined\<close>), and so are the bases where the left
  element is copied (\<open>JoinAdapter_rows_copy\<close>, \<open>SimpleJoinAdapter_rows\<close>).
\<close>

theorem Join_base_after_move:
  "JoinAdapter (\<lambda>v vs. vs @ [v]) Student_moved_from
     (AsDataFlow [\<lparr>id' = 1, name' = ''g''\<rparr>, \<lparr>id' = 1, name' = ''h''\<rparr>])
     group_id id'
     (AsDataFlow [\<lparr>group_id = 1, name = ''b''\<rparr>])
   = Some (AsDataFlow
      [\<lparr>base = \<lparr>group_id = 1, name = ''b''\<rparr>, joined = Some \<lparr>id' = 1, name' = ''g''\<rparr>\<rparr>,
       \<lparr>base = \<lparr>group_id = 1, name = []\<rparr>, joined = Some \<lparr>id' = 1, name' = ''h''\<rparr>\<rparr>])
   \<and>
   JoinAdapter (#) Student_moved_from
     (AsDataFlow [\<lparr>id' = 1, name' = ''g''\<rparr>, \<lparr>id' = 1, name' = ''h''\<rparr>])
     group_id id'
     (AsDataFlow [\<lparr>group_id = 1, name = ''b''\<rparr>])
   = Some (AsDataFlow
      [\<lparr>base = \<lparr>group_id = 1, name = ''b''\<rparr>, joined = Some \<lparr>id' = 1, name' = ''h''\<rparr>\<rparr>,
       \<lparr>base = \<lparr>group_id = 1, name = []\<rparr>, joined = Some \<lparr>id' = 1, name' = ''g''\<rparr>\<rparr>])"
  by (simp add: JoinAdapter_result [OF AsVector_AsDataFlow AsVector_AsDataFlow]
      build_right_map_def emplace_def Join_left_body_def equal_range_def Join_row_body_def
      Student_moved_from_def)

text \<open>
  C2, as stated, fails for a counting aggregator whose accumulator is narrow: with an
  8-bit unsigned counter started at 0, an input of 256 elements of the one key 1 gives
  the pair \<open>(1, 0)\<close>, and 256 elements have that key.
\<close>

theorem AggregateByKey_count_wraps:
  "AggregateByKeyAdapter_other (0 :: 8 word) 0 (\<lambda>acc x. acc + 1) (\<lambda>n. n)
       (AsDataFlow (replicate 256 (1 :: nat)))
     = Some (AsDataFlow [(1, 0)])
   \<and> length (filter (\<lambda>x. x = 1) (replicate 256 (1 :: nat))) = 256
   \<and> unat (0 :: 8 word) \<noteq> 256"
proof -
  have f: "first_occurrences (map (\<lambda>n. n) (replicate 256 (1 :: nat))) = [1]"
    using first_occurrences_replicate [of 256 "1 :: nat"] by simp
  have "AggregateByKeyAdapter_other (0 :: 8 word) 0 (\<lambda>acc x. acc + 1) (\<lambda>n. n)
       (AsDataFlow (replicate 256 (1 :: nat)))
     = Some (AsDataFlow (map (\<lambda>k. (k, foldl (\<lambda>acc x. acc + 1) 0
                                          (filter (\<lambda>x. x = k) (replicate 256 (1 :: nat)))))
                            (first_occurrences (map (\<lambda>n. n) (replicate 256 (1 :: nat))))))"
    by (rule AggregateByKeyAdapter_other_result) (rule AsVector_AsDataFlow)
  then show ?thesis
    by (simp only: f) (simp add: count_foldl_word)
qed

text \<open>
  C2, amended. For every input whose traversal gives \<open>xs\<close>, AggregateByKey returns the
  pairs \<open>(k, a)\<close> for the keys \<open>k\<close> of \<open>xs\<close> in the order of their first occurrence, each
  once, where \<open>a\<close> is the initial value folded with the aggregator over the elements of
  key \<open>k\<close>, for an accumulator of any type. For a counting aggregator on an unsigned
  accumulator of \<open>w\<close> bits (initial value 0, \<^verbatim>\<open>++acc\<close>), \<open>a\<close> is the number of elements of
  key \<open>k\<close> modulo \<open>2 ^ w\<close>, which is that number when it is below \<open>2 ^ w\<close>. The same holds
  in the branch for string elements, each string being its own key. The emitted keys are
  the keys of the input, they are distinct, and the order of first occurrence is
  \<^term>\<open>rev (remdups (rev ks))\<close>.
\<close>

theorem AggregateByKey_grouping:
  fixes wdflt :: "'w::len word"
  assumes "AsVector prev = Some xs" and "AsVector sprev = Some ss"
  shows "AggregateByKeyAdapter_other dflt initial_value aggregator key_selector prev
           = Some (AsDataFlow (map (\<lambda>k. (k, foldl aggregator initial_value
                                              (filter (\<lambda>x. key_selector x = k) xs)))
                                   (first_occurrences (map key_selector xs))))
       \<and> AggregateByKeyAdapter_other wdflt 0 (\<lambda>acc x. acc + 1) key_selector prev
           = Some (AsDataFlow (map (\<lambda>k. (k, word_of_nat
                                              (length (filter (\<lambda>x. key_selector x = k) xs))))
                                   (first_occurrences (map key_selector xs))))
       \<and> AggregateByKeyAdapter_string wdflt 0 (\<lambda>acc x. acc + 1) string_selector sprev
           = Some (AsDataFlow (map (\<lambda>k. (k, word_of_nat (length (filter (\<lambda>x. x = k) ss))))
                                   (first_occurrences ss)))
       \<and> unat (word_of_nat n :: 'w word) = n mod 2 ^ LENGTH('w)
       \<and> (n < 2 ^ LENGTH('w) \<longrightarrow> unat (word_of_nat n :: 'w word) = n)
       \<and> set (first_occurrences (map key_selector xs)) = key_selector ` set xs
       \<and> distinct (first_occurrences (map key_selector xs))
       \<and> first_occurrences (map key_selector xs) = rev (remdups (rev (map key_selector xs)))"
  using assms
  by (simp add: AggregateByKeyAdapter_other_result AggregateByKeyAdapter_string_result
      count_foldl_word first_occurrences_remdups [symmetric] unat_of_nat)

theorem AggregateByKey_grouping_witness:
  "AsVector (AsDataFlow [3, 4, 5, 6, 7 :: nat]) = Some [3, 4, 5, 6, 7]
   \<and> AsVector (AsDataFlow [''b'', ''a'', ''b'', ''c'', ''b'', ''a''])
       = Some [''b'', ''a'', ''b'', ''c'', ''b'', ''a'']
   \<and> (3 :: nat) < 2 ^ LENGTH(8)
   \<and> AggregateByKeyAdapter_other (0 :: 8 word) 0 (\<lambda>acc x. acc + 1) (\<lambda>n :: nat. n mod 2)
         (AsDataFlow [3, 4, 5, 6, 7])
       = Some (AsDataFlow [(1, 3), (0, 2)])
   \<and> AggregateByKeyAdapter_string (0 :: 8 word) 0 (\<lambda>acc x. acc + 1) (\<lambda>s :: string. length s)
         (AsDataFlow [''b'', ''a'', ''b'', ''c'', ''b'', ''a''])
       = Some (AsDataFlow [(''b'', 3), (''a'', 2), (''c'', 1)])
   \<and> unat (word_of_nat 3 :: 8 word) = 3"
  using AggregateByKey_grouping [where prev = "AsDataFlow [3, 4, 5, 6, 7 :: nat]"
      and xs = "[3, 4, 5, 6, 7]" and sprev = "AsDataFlow [''b'', ''a'', ''b'', ''c'', ''b'', ''a'']"
      and ss = "[''b'', ''a'', ''b'', ''c'', ''b'', ''a'']" and dflt = "0 :: 8 word"
      and wdflt = "0 :: 8 word" and key_selector = "\<lambda>n :: nat. n mod 2"
      and string_selector = "\<lambda>s :: string. length s"
      and initial_value = "0 :: 8 word" and aggregator = "\<lambda>acc x. acc + 1" and n = 3]
  by simp

text \<open>
  C3. For every input of fallible results whose traversal gives \<open>xs\<close>, SplitExpected
  returns the pair of the errors flow and the values flow, in this order: the errors
  flow holds the error payloads of the failing elements of \<open>xs\<close> in their order, the
  values flow the payloads of the others in their order, and the two sizes add up to
  the size of \<open>xs\<close>. This is so for \<^verbatim>\<open>SplitExpectedBaseAdapter\<close>, for
  \<^verbatim>\<open>split_existing_expected\<close> and for \<^verbatim>\<open>SplitExpected()\<close>.
\<close>

theorem SplitExpected_partition:
  assumes "AsVector prev = Some xs"
  shows "SplitExpectedBaseAdapter prev
           = Some (AsDataFlow (map the_error (filter (\<lambda>x. \<not> has_value x) xs)),
                   AsDataFlow (map the_value (filter has_value xs)))
       \<and> split_existing_expected prev
           = Some (AsDataFlow (map the_error (filter (\<lambda>x. \<not> has_value x) xs)),
                   AsDataFlow (map the_value (filter has_value xs)))
       \<and> SplitExpected0 prev = split_existing_expected prev
       \<and> length (map the_error (filter (\<lambda>x. \<not> has_value x) xs))
           + length (map the_value (filter has_value xs)) = length xs"
  using assms sum_length_filter_compl [of has_value xs]
  by (simp add: SplitExpectedBaseAdapter_def split_existing_expected_def range_for_AsVector
      SplitExpectedBase_foldl split_existing_foldl SplitExpected0_def
      SplitExpectedTransformAdapter_expected_def add.commute)

theorem SplitExpected_partition_witness:
  "AsVector (AsDataFlow [Expected (1 :: int), Unexpected ''error1'', Expected 2])
     = Some [Expected 1, Unexpected ''error1'', Expected 2]
   \<and> SplitExpectedBaseAdapter (AsDataFlow [Expected (1 :: int), Unexpected ''error1'', Expected 2])
     = Some (AsDataFlow [''error1''], AsDataFlow [1, 2])
   \<and> SplitExpected0 (AsDataFlow [Expected (1 :: int), Unexpected ''error1'', Expected 2])
     = Some (AsDataFlow [''error1''], AsDataFlow [1, 2])"
  using SplitExpected_partition [where
      prev = "AsDataFlow [Expected (1 :: int), Unexpected ''error1'', Expected 2]"
      and xs = "[Expected (1 :: int), Unexpected ''error1'', Expected 2]"]
  by (simp add: has_value_def)

text \<open>
  C4. Splitting the chunk \<^verbatim>\<open>"a.b.c"\<close> on \<^verbatim>\<open>"."\<close> gives \<^verbatim>\<open>a\<close>, \<^verbatim>\<open>b\<close>, \<^verbatim>\<open>c\<close>, and
  splitting \<^verbatim>\<open>"a..b"\<close> gives \<^verbatim>\<open>a\<close>, the empty token, \<^verbatim>\<open>b\<close>. For every container that holds
  a chunk, Split yields the tokens of its chunks, chunk after chunk, none left out: two
  delimiters in a row give an empty token between them, a delimiter that ends a chunk
  gives an empty token after it, and a chunk has one token more than it has delimiter
  characters.
\<close>

theorem Split_tokens:
  assumes "chunks \<noteq> []" and "d \<in> set delims" and "d' \<in> set delims"
  shows "AsVector (Split ''.'' (AsDataFlow [''a.b.c''])) = Some [''a'', ''b'', ''c'']
       \<and> AsVector (Split ''.'' (AsDataFlow [''a..b''])) = Some [''a'', [], ''b'']
       \<and> AsVector (Split delims (AsDataFlow chunks)) = Some (concat (map (tokens delims) chunks))
       \<and> tokens delims (u @ d # d' # v) = tokens delims u @ [] # tokens delims v
       \<and> tokens delims (u @ [d]) = tokens delims u @ [[]]
       \<and> length (tokens delims s) = Suc (length (filter (\<lambda>c. c \<in> set delims) s))"
  using assms
  by (simp add: Split_def AsDataFlow_def DataFlow_def AsVector_Split tokens_two_delims
      tokens_last_delim tokens_length)

theorem Split_tokens_witness:
  "[''x,,y;'', ''z''] \<noteq> [] \<and> CHR '','' \<in> set '',;'' \<and> CHR '';'' \<in> set '',;''
   \<and> AsVector (Split '',;'' (AsDataFlow [''x,,y;'', ''z''])) = Some [''x'', [], ''y'', [], ''z'']"
  using Split_tokens [where chunks = "[''x,,y;'', ''z'']" and delims = "'',;''"
      and d = "CHR '',''" and d' = "CHR '';''"]
  by simp

text \<open>
  C5 (the code departs from the claim where the input is the flow of a Split). The chunk
  \<^verbatim>\<open>"a b"\<close> is split on the blank and the tokens are filtered for being non-empty, the
  pipeline of \<^verbatim>\<open>bin/main.cpp\<close>. Materializing the input gives \<^verbatim>\<open>a\<close>, \<^verbatim>\<open>b\<close>, and the claim
  says that materializing the filtered flow gives \<^verbatim>\<open>a\<close>, \<^verbatim>\<open>b\<close> too. It does not return:
  \<^verbatim>\<open>FilteredFlow::end()\<close> runs \<^verbatim>\<open>skip_unmatched\<close> on the end cursor of the split flow, which
  differs from itself, holds the empty token and stays as it is when advanced. For a
  container as input, and for every upstream whose end cursor does not differ from
  itself, the claim holds (\<open>AsVector_Filter_source\<close>, \<open>AsVector_Filter\<close>).
\<close>

theorem Filter_after_Split:
  "AsVector (Split '' '' (AsDataFlow [''a b''])) = Some [''a'', ''b'']
   \<and> flow_end (Filter (\<lambda>word. word \<noteq> []) (Split '' '' (AsDataFlow [''a b'']))) = None
   \<and> AsVector (Filter (\<lambda>word. word \<noteq> []) (Split '' '' (AsDataFlow [''a b'']))) = None"
  by (simp add: Filter_Split_no_end AsVector_Filter_Split)
    (simp add: Split_def AsDataFlow_def DataFlow_def AsVector_Split)

text \<open>
  C6. For every upstream flow and all functions \<open>f\<close> and \<open>g\<close>, materializing
  \<open>Transform(g)\<close> over \<open>Transform(f)\<close> gives what materializing
  \<open>Transform(x => g(f(x)))\<close> gives (neither returns when the upstream's traversal does not
  end); over a container \<open>xs\<close> both give the list of the \<open>g (f x)\<close>.
\<close>

theorem Transform_composition:
  "AsVector (Transform g (Transform f prev)) = AsVector (Transform (\<lambda>x. g (f x)) prev)
   \<and> AsVector (Transform g (Transform f (AsDataFlow xs))) = Some (map (\<lambda>x. g (f x)) xs)"
  by (simp add: Transform_def AsVector_Transform option.map_comp comp_def)

text \<open>
  C7, as stated, fails where the multimap puts a new entry in front of the entries of its
  key: the left element 1 matches the right elements \<open>(1, g)\<close> and \<open>(1, h)\<close>, in this order
  in the right sequence, and its rows come with \<open>(1, h)\<close> first.
\<close>

theorem Join_order_counterexample:
  "JoinAdapter (#) (\<lambda>x. x) (AsDataFlow [(1 :: nat, ''g''), (1, ''h'')]) (\<lambda>l. l) fst
       (AsDataFlow [1 :: nat])
     = Some (AsDataFlow [\<lparr>base = 1, joined = Some (1, ''h'')\<rparr>,
                         \<lparr>base = 1, joined = Some (1, ''g'')\<rparr>])
   \<and> JoinAdapter (#) (\<lambda>x. x) (AsDataFlow [(1 :: nat, ''g''), (1, ''h'')]) (\<lambda>l. l) fst
       (AsDataFlow [1 :: nat])
     \<noteq> Some (AsDataFlow [\<lparr>base = 1, joined = Some (1, ''g'')\<rparr>,
                         \<lparr>base = 1, joined = Some (1, ''h'')\<rparr>])"
  by (simp add: JoinAdapter_result [OF AsVector_AsDataFlow AsVector_AsDataFlow]
      build_right_map_def emplace_def Join_left_body_def equal_range_def Join_row_body_def)

text \<open>
  C7, amended. For every left element, Join emits one row for each right element of its
  key, each such right element once, side by side and in the order in which the
  multimap's \<^verbatim>\<open>equal_range\<close> gives them (\<open>group\<close> below); a left element without a match
  gives one row without a joined value. Where the multimap keeps the entries of a key in
  the order of their insertion, that order is the order of the right sequence.
\<close>

theorem Join_match_order:
  assumes "AsVector right = Some rs" and "AsVector left = Some ls" and "places_one place"
  shows "(\<exists>rows group.
            JoinAdapter place moved_from right left_key right_key left = Some (AsDataFlow rows)
            \<and> (\<forall>k. mset (group k) = mset (filter (\<lambda>r. right_key r = k) rs))
            \<and> map joined rows = concat (map (\<lambda>l. if group (left_key l) = [] then [None]
                                                  else map Some (group (left_key l))) ls))
       \<and> (\<exists>rows.
            JoinAdapter (\<lambda>v vs. vs @ [v]) moved_from right left_key right_key left
              = Some (AsDataFlow rows)
            \<and> map joined rows = concat (map (\<lambda>l. if filter (\<lambda>r. right_key r = left_key l) rs = []
                                                  then [None]
                                                  else map Some (filter (\<lambda>r. right_key r = left_key l) rs))
                                           ls))"
proof (intro conjI)
  let ?g = "build_right_map place right_key (\<lambda>r. r) (\<lambda>k. []) rs"
  have "\<forall>k. mset (?g k) = mset (filter (\<lambda>r. right_key r = k) rs)"
    using assms(3) by (simp add: build_right_map_mset)
  moreover have "map joined (concat (map (Join_left_body moved_from left_key ?g []) ls))
      = concat (map (\<lambda>l. if ?g (left_key l) = [] then [None] else map Some (?g (left_key l))) ls)"
    by (simp add: map_concat comp_def Join_left_body_joined)
  ultimately show "\<exists>rows group.
            JoinAdapter place moved_from right left_key right_key left = Some (AsDataFlow rows)
            \<and> (\<forall>k. mset (group k) = mset (filter (\<lambda>r. right_key r = k) rs))
            \<and> map joined rows = concat (map (\<lambda>l. if group (left_key l) = [] then [None]
                                                  else map Some (group (left_key l))) ls)"
    using JoinAdapter_result [OF assms(1,2)] by blast
next
  let ?g = "build_right_map (\<lambda>v vs. vs @ [v]) right_key (\<lambda>r. r) (\<lambda>k. []) rs"
  have g: "?g k = filter (\<lambda>r. right_key r = k) rs" for k
    by (simp add: build_right_map_append)
  have "map joined (concat (map (Join_left_body moved_from left_key ?g []) ls))
      = concat (map (\<lambda>l. if filter (\<lambda>r. right_key r = left_key l) rs = [] then [None]
                          else map Some (filter (\<lambda>r. right_key r = left_key l) rs)) ls)"
    by (simp add: map_concat comp_def Join_left_body_joined g cong: if_cong)
  then show "\<exists>rows.
            JoinAdapter (\<lambda>v vs. vs @ [v]) moved_from right left_key right_key left
              = Some (AsDataFlow rows)
            \<and> map joined rows = concat (map (\<lambda>l. if filter (\<lambda>r. right_key r = left_key l) rs = []
                                                  then [None]
                                                  else map Some (filter (\<lambda>r. right_key r = left_key l) rs))
                                           ls)"
    using JoinAdapter_result [OF assms(1,2)] by blast
qed

theorem Join_match_order_witness:
  "AsVector (AsDataFlow [(1 :: nat, ''g''), (2, ''x''), (1, ''h'')])
     = Some [(1, ''g''), (2, ''x''), (1, ''h'')]
   \<and> AsVector (AsDataFlow [1 :: nat, 3]) = Some [1, 3]
   \<and> places_one ((#) :: (nat \<times> string) \<Rightarrow> _)
   \<and> (\<exists>rows. JoinAdapter (\<lambda>v vs. vs @ [v]) (\<lambda>x. x)
          (AsDataFlow [(1 :: nat, ''g''), (2, ''x''), (1, ''h'')]) (\<lambda>l. l) fst
          (AsDataFlow [1 :: nat, 3])
          = Some (AsDataFlow rows)
        \<and> map joined rows = [Some (1, ''g''), Some (1, ''h''), None])"
proof -
  have p: "places_one ((#) :: (nat \<times> string) \<Rightarrow> _)"
    by (simp add: places_one_def)
  from Join_match_order [where right = "AsDataFlow [(1 :: nat, ''g''), (2, ''x''), (1, ''h'')]"
      and rs = "[(1 :: nat, ''g''), (2, ''x''), (1, ''h'')]" and left = "AsDataFlow [1 :: nat, 3]"
      and ls = "[1 :: nat, 3]" and place = "(#)"
      and moved_from = "\<lambda>x. x" and left_key = "\<lambda>l. l" and right_key = fst]
  show ?thesis using p by simp
qed

text \<open>
  C8. For every input whose traversal gives \<open>xs\<close>, the sink appends to the stream the text
  of each element followed by the separator, the last element included, and hands its
  input on. The integers 1 to 5 with the separator \<^verbatim>\<open>|\<close> give \<^verbatim>\<open>1|2|3|4|5|\<close>, and an empty
  input gives the empty string.
\<close>

theorem Write_separator_after_each:
  assumes "AsVector prev = Some xs"
  shows "WriteAdapter os delimiter to_text prev
           = Some (os @ concat (map (\<lambda>x. to_text x @ [delimiter]) xs), prev)
       \<and> WriteAdapter [] (CHR ''|'') int_text (AsDataFlow [1, 2, 3, 4, 5])
           = Some (''1|2|3|4|5|'', AsDataFlow [1, 2, 3, 4, 5])
       \<and> WriteAdapter [] delimiter to_text (AsDataFlow []) = Some ([], AsDataFlow [])"
  using assms
  by (simp add: WriteAdapter_result int_text_def digit_char_def)

theorem Write_separator_after_each_witness:
  "AsVector (AsDataFlow [''a'', ''b'', ''c'']) = Some [''a'', ''b'', ''c'']
   \<and> WriteAdapter [] (CHR '','') (\<lambda>s. s) (AsDataFlow [''a'', ''b'', ''c''])
       = Some (''a,b,c,'', AsDataFlow [''a'', ''b'', ''c''])"
  using Write_separator_after_each [where prev = "AsDataFlow [''a'', ''b'', ''c'']"
      and xs = "[''a'', ''b'', ''c'']" and os = "[]" and delimiter = "CHR '',''"
      and to_text = "\<lambda>s. s"]
  by simp

text \<open>
  C9. On an input of fallible results, \<open>SplitExpected(f)\<close> returns what \<open>SplitExpected()\<close>
  returns, whatever \<open>f\<close> is: the partition of the elements the traversal of the input
  gives into errors and values (and it does not return when that traversal does not end).
\<close>

theorem SplitExpected_ignores_func:
  "SplitExpectedTransformAdapter_expected func prev = SplitExpected0 prev
   \<and> SplitExpectedTransformAdapter_expected func prev
       = SplitExpectedTransformAdapter_expected func' prev
   \<and> SplitExpectedTransformAdapter_expected func prev
       = map_option (\<lambda>xs. (AsDataFlow (map the_error (filter (\<lambda>x. \<not> has_value x) xs)),
                            AsDataFlow (map the_value (filter has_value xs))))
           (AsVector prev)"
  by (cases "AsVector prev")
    (simp_all add: SplitExpectedTransformAdapter_expected_def SplitExpected0_def
      split_existing_expected_def range_for_AsVector split_existing_foldl)

text \<open>
  C10. On an input of strings, AggregateByKey returns the same for every key selector,
  and what the other branch returns with the identity as key selector: the pairs of
  each distinct string, in the order of first occurrence, with the fold of the
  aggregator over its occurrences.
\<close>

theorem AggregateByKey_string_ignores_selector:
  "AggregateByKeyAdapter_string dflt initial_value aggregator key_selector prev
     = AggregateByKeyAdapter_string dflt initial_value aggregator key_selector' prev
   \<and> AggregateByKeyAdapter_string dflt initial_value aggregator key_selector prev
     = AggregateByKeyAdapter_other dflt initial_value aggregator (\<lambda>s. s) prev
   \<and> AggregateByKeyAdapter_string dflt initial_value aggregator key_selector prev
     = map_option (\<lambda>xs. AsDataFlow (map (\<lambda>k. (k, foldl aggregator initial_value
                                                  (filter (\<lambda>x. x = k) xs)))
                                        (first_occurrences xs)))
         (AsVector prev)"
proof (cases "AsVector prev")
  case None
  then show ?thesis
    by (simp add: AggregateByKeyAdapter_string_def AggregateByKeyAdapter_other_def
        range_for_AsVector)
next
  case (Some xs)
  then show ?thesis
    by (simp add: AggregateByKeyAdapter_string_result AggregateByKeyAdapter_other_result)
qed

end
